theory Spec2Isabelle
  imports Main "HOL-Library.AList"
begin

section \<open>The Ludo engine of \<^verbatim>\<open>ludo_game.py\<close>\<close>

text \<open>
  The engine is a Python class \<^verbatim>\<open>LudoGame\<close> that owns a dictionary of players, each
  with four pieces. Every method is embedded as a HOL function that takes the game and
  returns the new game, the method's return value and the list of events the method
  hands to \<^verbatim>\<open>_emit_event\<close>, in emission order. The listener list itself is not part of
  the model: listeners only receive the events.
  A Python exception is a value of type \<open>error\<close> (\<open>Inl\<close>); every raise of the engine
  happens before the first mutation of the method that raises.
  The value drawn by \<^verbatim>\<open>random.randint(1, 6)\<close> is an argument of \<open>roll_dice\<close>.
\<close>

subsection \<open>Enumerations and events\<close>

datatype PlayerColor = RED | GREEN | YELLOW | BLUE

datatype GameState = WAITING_FOR_PLAYERS | ROLLING_DICE | MOVING_PIECE | GAME_OVER

text \<open>\<^verbatim>\<open>EventType.GAME_OVER\<close> is \<open>EV_GAME_OVER\<close>, since \<open>GAME_OVER\<close> is the game state.\<close>

datatype EventType =
  GAME_STARTED | DICE_ROLLED | PIECE_MOVED | PLAYER_TURN_CHANGED
  | EV_GAME_OVER | INVALID_MOVE | PIECE_CAPTURED | PIECE_HOME

text \<open>
  The \<^verbatim>\<open>data\<close> dictionary of an event, one constructor per shape the engine builds.
  A piece named in \<^verbatim>\<open>PIECE_CAPTURED\<close> (the source stores \<^verbatim>\<open>str(piece)\<close>) is given by
  its colour and its id.
\<close>

datatype EventData =
  StartedData "PlayerColor list"
  | DiceData int
  | MovedData int int int int
  | TurnData PlayerColor
  | OverData PlayerColor
  | InvalidData int int
  | CapturedData "PlayerColor \<times> int" "PlayerColor \<times> int"
  | HomeData int PlayerColor

datatype GameEvent =
  GameEvent (event_type: EventType) (data: EventData) (event_color: "PlayerColor option")

datatype error = KeyError | IndexError

subsection \<open>Piece and Player\<close>

record Piece =
  player_color :: PlayerColor
  piece_id :: int
  position :: int
  is_home :: bool
  is_safe :: bool

definition Piece_init :: "PlayerColor \<Rightarrow> int \<Rightarrow> Piece" where
  "Piece_init c i =
     \<lparr>player_color = c, piece_id = i, position = - 1, is_home = False, is_safe = False\<rparr>"

definition piece_reset :: "Piece \<Rightarrow> Piece" where
  "piece_reset p = p\<lparr>position := - 1, is_home := False, is_safe := False\<rparr>"

text \<open>
  \<^verbatim>\<open>Piece\<close> defines no \<^verbatim>\<open>__eq__\<close>, so \<^verbatim>\<open>a != b\<close> compares object identity. A piece
  object is created once with its colour and id, which nothing changes afterwards, and
  the pieces of one game carry pairwise different (colour, id) pairs: that pair is the
  identity of the object.
\<close>

definition same_piece :: "Piece \<Rightarrow> Piece \<Rightarrow> bool" where
  "same_piece a b \<longleftrightarrow> player_color a = player_color b \<and> piece_id a = piece_id b"

record Player =
  color :: PlayerColor
  pieces :: "Piece list"
  home_count :: int
  start_position :: int
  home_position :: int

fun get_start_position :: "PlayerColor \<Rightarrow> int" where
  "get_start_position RED = 0"
| "get_start_position GREEN = 13"
| "get_start_position YELLOW = 26"
| "get_start_position BLUE = 39"

fun get_home_position :: "PlayerColor \<Rightarrow> int" where
  "get_home_position RED = 50"
| "get_home_position GREEN = 63"
| "get_home_position YELLOW = 76"
| "get_home_position BLUE = 89"

definition Player_init :: "PlayerColor \<Rightarrow> Player" where
  "Player_init c =
     \<lparr>color = c, pieces = map (Piece_init c) [0, 1, 2, 3], home_count = 0,
      start_position = get_start_position c, home_position = get_home_position c\<rparr>"

definition get_pieces_in_home :: "Player \<Rightarrow> Piece list" where
  "get_pieces_in_home pl = filter (\<lambda>piece. position piece = - 1) (pieces pl)"

definition get_pieces_on_board :: "Player \<Rightarrow> Piece list" where
  "get_pieces_on_board pl =
     filter (\<lambda>piece. position piece \<ge> 0 \<and> \<not> is_home piece) (pieces pl)"

definition get_pieces_in_final_home :: "Player \<Rightarrow> Piece list" where
  "get_pieces_in_final_home pl = filter is_home (pieces pl)"

definition has_won :: "Player \<Rightarrow> bool" where
  "has_won pl \<longleftrightarrow> length (get_pieces_in_final_home pl) = 4"

subsection \<open>The game\<close>

text \<open>
  \<^verbatim>\<open>players\<close> is a Python dictionary, which keeps insertion order: an association list
  with \<open>map_of\<close> for lookup, \<open>AList.delete\<close> for \<^verbatim>\<open>del\<close>, and a new key appended at the
  end. \<^verbatim>\<open>board_size\<close>, \<^verbatim>\<open>home_stretch_positions\<close> and \<^verbatim>\<open>safe_positions\<close> are set by the
  constructor and never assigned again: they are constants.
\<close>

record LudoGame =
  players :: "(PlayerColor \<times> Player) list"
  current_player :: "PlayerColor option"
  game_state :: GameState
  dice_value :: int

definition board_size :: int where
  "board_size = 52"

fun home_stretch_positions :: "PlayerColor \<Rightarrow> int list" where
  "home_stretch_positions RED = [50, 51, 52, 53, 54, 55]"
| "home_stretch_positions GREEN = [63, 64, 65, 66, 67, 68]"
| "home_stretch_positions YELLOW = [76, 77, 78, 79, 80, 81]"
| "home_stretch_positions BLUE = [89, 90, 91, 92, 93, 94]"

definition safe_positions :: "int set" where
  "safe_positions = {0, 8, 13, 21, 26, 34, 39, 47}"

definition LudoGame_init :: LudoGame where
  "LudoGame_init =
     \<lparr>players = [], current_player = None, game_state = WAITING_FOR_PLAYERS, dice_value = 0\<rparr>"

definition start_game :: "LudoGame \<Rightarrow> GameEvent list \<times> LudoGame" where
  "start_game g =
     (if length (players g) \<noteq> 4 then ([], g)
      else
        ([GameEvent GAME_STARTED (StartedData (map fst (players g))) (Some RED)],
         g\<lparr>game_state := ROLLING_DICE, current_player := Some RED\<rparr>))"

definition add_player :: "LudoGame \<Rightarrow> PlayerColor \<Rightarrow> bool \<times> GameEvent list \<times> LudoGame" where
  "add_player g c =
     (if map_of (players g) c \<noteq> None then (False, [], g)
      else
        (let g1 = g\<lparr>players := players g @ [(c, Player_init c)]\<rparr> in
         if length (players g1) = 4
         then (case start_game g1 of (evs, g2) \<Rightarrow> (True, evs, g2))
         else (True, [], g1)))"

definition remove_player :: "LudoGame \<Rightarrow> PlayerColor \<Rightarrow> bool \<times> LudoGame" where
  "remove_player g c =
     (if map_of (players g) c = None then (False, g)
      else (True, g\<lparr>players := AList.delete c (players g)\<rparr>))"

definition roll_dice :: "LudoGame \<Rightarrow> int \<Rightarrow> int \<times> GameEvent list \<times> LudoGame" where
  "roll_dice g drawn =
     (if game_state g \<noteq> ROLLING_DICE then (0, [], g)
      else
        (let g1 = g\<lparr>dice_value := drawn, game_state := MOVING_PIECE\<rparr> in
         (dice_value g1,
          [GameEvent DICE_ROLLED (DiceData (dice_value g1)) (current_player g1)],
          g1)))"

subsection \<open>Board geometry and validation\<close>

definition lookup_player :: "LudoGame \<Rightarrow> PlayerColor \<Rightarrow> error + Player" where
  "lookup_player g c = (case map_of (players g) c of None \<Rightarrow> Inl KeyError | Some pl \<Rightarrow> Inr pl)"

definition should_enter_home_stretch :: "LudoGame \<Rightarrow> Piece \<Rightarrow> int \<Rightarrow> error + bool" where
  "should_enter_home_stretch g piece new_position =
     (if new_position < board_size then Inr False
      else
        (case lookup_player g (player_color piece) of
           Inl e \<Rightarrow> Inl e
         | Inr player \<Rightarrow>
             if position piece < start_position player \<and> new_position \<ge> start_position player
             then Inr False
             else Inr True))"

definition calculate_new_position :: "LudoGame \<Rightarrow> Piece \<Rightarrow> int \<Rightarrow> error + int" where
  "calculate_new_position g piece dice =
     (if is_home piece then Inr (position piece)
      else if position piece = - 1 then
        (if dice = 6 then
           (case lookup_player g (player_color piece) of
              Inl e \<Rightarrow> Inl e
            | Inr player \<Rightarrow> Inr (start_position player))
         else Inr (- 1))
      else
        (let new_pos = position piece + dice in
         case should_enter_home_stretch g piece new_pos of
           Inl e \<Rightarrow> Inl e
         | Inr True \<Rightarrow>
             (case lookup_player g (player_color piece) of
                Inl e \<Rightarrow> Inl e
              | Inr player \<Rightarrow> Inr (home_position player + (new_pos - board_size)))
         | Inr False \<Rightarrow>
             Inr (if new_pos \<ge> board_size then new_pos - board_size else new_pos)))"

definition is_in_final_home :: "LudoGame \<Rightarrow> Piece \<Rightarrow> error + bool" where
  "is_in_final_home g piece =
     (case lookup_player g (player_color piece) of
        Inl e \<Rightarrow> Inl e
      | Inr player \<Rightarrow>
          if position piece < home_position player then Inr False
          else Inr (position piece \<in> set (home_stretch_positions (player_color piece))))"

definition is_valid_move :: "LudoGame \<Rightarrow> Piece \<Rightarrow> int \<Rightarrow> error + bool" where
  "is_valid_move g piece new_position =
     (if is_home piece then Inr False
      else if position piece = - 1 then Inr (dice_value g = 6)
      else
        (case lookup_player g (player_color piece) of
           Inl e \<Rightarrow> Inl e
         | Inr player \<Rightarrow>
             Inr (\<not> list_ex
                    (\<lambda>other_piece. \<not> same_piece other_piece piece
                       \<and> position other_piece = new_position \<and> \<not> is_home other_piece)
                    (pieces player))))"

text \<open>The nested loops return the first match in dictionary order, then piece order.\<close>

definition check_capture :: "LudoGame \<Rightarrow> Piece \<Rightarrow> int \<Rightarrow> Piece option" where
  "check_capture g moving_piece pos =
     (if pos \<in> safe_positions then None
      else
        List.find
          (\<lambda>piece. \<not> same_piece piece moving_piece \<and> position piece = pos
             \<and> \<not> is_home piece \<and> player_color piece \<noteq> player_color moving_piece)
          (concat (map (\<lambda>(c, player). pieces player) (players g))))"

fun valid_moves_loop :: "LudoGame \<Rightarrow> Piece list \<Rightarrow> error + (Piece \<times> int) list" where
  "valid_moves_loop g [] = Inr []"
| "valid_moves_loop g (piece # rest) =
     (case calculate_new_position g piece (dice_value g) of
        Inl e \<Rightarrow> Inl e
      | Inr new_position \<Rightarrow>
          (case is_valid_move g piece new_position of
             Inl e \<Rightarrow> Inl e
           | Inr valid \<Rightarrow>
               (case valid_moves_loop g rest of
                  Inl e \<Rightarrow> Inl e
                | Inr valid_moves \<Rightarrow>
                    Inr (if valid then (piece, new_position) # valid_moves else valid_moves))))"

definition get_valid_moves :: "LudoGame \<Rightarrow> PlayerColor \<Rightarrow> error + (Piece \<times> int) list" where
  "get_valid_moves g pc =
     (if current_player g \<noteq> Some pc \<or> game_state g \<noteq> MOVING_PIECE then Inr []
      else
        (case lookup_player g pc of
           Inl e \<Rightarrow> Inl e
         | Inr player \<Rightarrow> valid_moves_loop g (pieces player)))"

subsection \<open>Writing to objects\<close>

text \<open>
  The source mutates piece and player objects in place. \<open>store_piece g p\<close> writes the
  field values of \<open>p\<close> to the piece object that \<open>p\<close> denotes; \<open>modify_player g c f\<close>
  applies \<open>f\<close> to the player object stored under the key \<open>c\<close>.
\<close>

definition store_piece :: "LudoGame \<Rightarrow> Piece \<Rightarrow> LudoGame" where
  "store_piece g p =
     g\<lparr>players :=
         map (\<lambda>(c, pl). (c, pl\<lparr>pieces := map (\<lambda>q. if same_piece q p then p else q) (pieces pl)\<rparr>))
           (players g)\<rparr>"

definition modify_player :: "LudoGame \<Rightarrow> PlayerColor \<Rightarrow> (Player \<Rightarrow> Player) \<Rightarrow> LudoGame" where
  "modify_player g c f =
     g\<lparr>players := map (\<lambda>(k, pl). if k = c then (k, f pl) else (k, pl)) (players g)\<rparr>"

subsection \<open>Turn order and the end of the game\<close>

definition player_order :: "PlayerColor list" where
  "player_order = [RED, GREEN, YELLOW, BLUE]"

text \<open>\<^verbatim>\<open>player_order.index(c)\<close>; every colour occurs in \<open>player_order\<close>.\<close>

fun order_index :: "PlayerColor \<Rightarrow> nat" where
  "order_index RED = 0"
| "order_index GREEN = 1"
| "order_index YELLOW = 2"
| "order_index BLUE = 3"

text \<open>
  The \<^verbatim>\<open>while\<close> loop of \<^verbatim>\<open>_next_turn\<close>, with the current player and the loop variable
  \<^verbatim>\<open>next_index\<close> as arguments; it returns the value of \<^verbatim>\<open>next_index\<close> at loop exit.
\<close>

function next_turn_loop :: "LudoGame \<Rightarrow> PlayerColor \<Rightarrow> nat \<Rightarrow> error + nat" where
  "next_turn_loop g cp next_index =
     (if next_index = order_index cp then Inr next_index
      else if length player_order \<le> next_index then Inl IndexError
      else if (case map_of (players g) (player_order ! next_index) of
                 None \<Rightarrow> False
               | Some next_player \<Rightarrow> \<not> has_won next_player)
      then Inr next_index
      else next_turn_loop g cp ((next_index + 1) mod 4))"
  by pat_completeness auto
termination
proof (relation "measure (\<lambda>(g, cp, n). (order_index cp + 4 - n) mod 4)")
  show "wf (measure (\<lambda>(g, cp, n). (order_index cp + 4 - n) mod 4))"
    by simp
next
  fix g :: LudoGame and cp :: PlayerColor and next_index :: nat
  assume ne: "next_index \<noteq> order_index cp"
    and lt: "\<not> length player_order \<le> next_index"
  have "next_index < 4"
    using lt by (simp add: player_order_def)
  then have "next_index = 0 \<or> next_index = 1 \<or> next_index = 2 \<or> next_index = 3"
    by linarith
  with ne have "(order_index cp + 4 - (next_index + 1) mod 4) mod 4
      < (order_index cp + 4 - next_index) mod 4"
    by (cases cp) auto
  then show "((g, cp, (next_index + 1) mod 4), (g, cp, next_index))
      \<in> measure (\<lambda>(g, cp, n). (order_index cp + 4 - n) mod 4)"
    by simp
qed

declare next_turn_loop.simps [simp del]

definition next_turn :: "LudoGame \<Rightarrow> error + GameEvent list \<times> LudoGame" where
  "next_turn g =
     (case current_player g of
        None \<Rightarrow> Inr ([], g)
      | Some cp \<Rightarrow>
          (case next_turn_loop g cp ((order_index cp + 1) mod 4) of
             Inl e \<Rightarrow> Inl e
           | Inr next_index \<Rightarrow>
               if length player_order \<le> next_index then Inl IndexError
               else
                 (let g1 = g\<lparr>current_player := Some (player_order ! next_index),
                              game_state := ROLLING_DICE\<rparr>
                  in Inr ([GameEvent PLAYER_TURN_CHANGED
                             (TurnData (player_order ! next_index)) (current_player g1)],
                          g1))))"

definition end_game :: "LudoGame \<Rightarrow> PlayerColor \<Rightarrow> GameEvent list \<times> LudoGame" where
  "end_game g winner =
     ([GameEvent EV_GAME_OVER (OverData winner) (Some winner)], g\<lparr>game_state := GAME_OVER\<rparr>)"

subsection \<open>Moving a piece\<close>

text \<open>
  \<open>execute_move\<close> is the part of \<^verbatim>\<open>move_piece\<close> after the validity check (from the
  comment \<^verbatim>\<open># Execute the move\<close> on). The local variable \<^verbatim>\<open>piece\<close> is threaded as
  \<open>piece1\<close>, \<open>piece2\<close>, \<open>piece3\<close>, each written to the game as the source assigns the
  field. Its blocks are definitions of their own: \<open>mark_home\<close> is the block under
  \<^verbatim>\<open># Check if piece reached final home\<close>, given the value of \<^verbatim>\<open>_is_in_final_home\<close>;
  \<open>resolve_capture\<close> the block under \<^verbatim>\<open># Check for captures\<close>; \<open>apply_move\<close> runs
  these two, then updates \<^verbatim>\<open>is_safe\<close> and emits \<^verbatim>\<open>PIECE_MOVED\<close>; \<open>finish_turn\<close> is the
  blocks under \<^verbatim>\<open># Check for game over\<close> and \<^verbatim>\<open># Move to next player\<close>, where
  \<^verbatim>\<open>player.has_won()\<close> reads the player object as it is after the writes.
\<close>

definition mark_home ::
  "LudoGame \<Rightarrow> PlayerColor \<Rightarrow> int \<Rightarrow> Piece \<Rightarrow> bool \<Rightarrow> Piece \<times> GameEvent list \<times> LudoGame"
where
  "mark_home g1 pc pid piece1 reached =
     (if reached then
        (piece1\<lparr>is_home := True\<rparr>,
         [GameEvent PIECE_HOME (HomeData pid pc) (Some pc)],
         modify_player (store_piece g1 (piece1\<lparr>is_home := True\<rparr>)) pc
           (\<lambda>pl. pl\<lparr>home_count := home_count pl + 1\<rparr>))
      else (piece1, [], g1))"

definition resolve_capture ::
  "LudoGame \<Rightarrow> PlayerColor \<Rightarrow> Piece \<Rightarrow> int \<Rightarrow> GameEvent list \<times> LudoGame"
where
  "resolve_capture g2 pc piece2 new_position =
     (case check_capture g2 piece2 new_position of
        None \<Rightarrow> ([], g2)
      | Some captured_piece \<Rightarrow>
          ([GameEvent PIECE_CAPTURED
              (CapturedData (player_color captured_piece, piece_id captured_piece)
                 (player_color piece2, piece_id piece2))
              (Some pc)],
           store_piece g2 (piece_reset captured_piece)))"

definition finish_turn :: "LudoGame \<Rightarrow> PlayerColor \<Rightarrow> error + GameEvent list \<times> LudoGame" where
  "finish_turn g4 pc =
     (case lookup_player g4 pc of
        Inl e \<Rightarrow> Inl e
      | Inr player \<Rightarrow> if has_won player then Inr (end_game g4 pc) else next_turn g4)"

definition apply_move ::
  "LudoGame \<Rightarrow> PlayerColor \<Rightarrow> int \<Rightarrow> Piece \<Rightarrow> int \<Rightarrow> int \<Rightarrow> bool \<Rightarrow> GameEvent list \<times> LudoGame"
where
  "apply_move g1 pc pid piece1 old_position new_position reached =
     (case mark_home g1 pc pid piece1 reached of
        (piece2, ev_home, g2) \<Rightarrow>
          (case resolve_capture g2 pc piece2 new_position of
             (ev_capture, g3) \<Rightarrow>
               (let piece3 = piece2\<lparr>is_safe := (new_position \<in> safe_positions)\<rparr>;
                    g4 = store_piece g3 piece3;
                    ev_moved =
                      [GameEvent PIECE_MOVED
                         (MovedData pid old_position new_position (dice_value g4))
                         (Some pc)]
                in (ev_home @ ev_capture @ ev_moved, g4))))"

definition execute_move ::
  "LudoGame \<Rightarrow> PlayerColor \<Rightarrow> int \<Rightarrow> Piece \<Rightarrow> int \<Rightarrow> error + bool \<times> GameEvent list \<times> LudoGame"
where
  "execute_move g pc pid piece new_position =
     (let old_position = position piece;
          piece1 = piece\<lparr>position := new_position\<rparr>;
          g1 = store_piece g piece1
      in
      case is_in_final_home g1 piece1 of
        Inl e \<Rightarrow> Inl e
      | Inr reached \<Rightarrow>
          (case apply_move g1 pc pid piece1 old_position new_position reached of
             (evs, g4) \<Rightarrow>
               (case finish_turn g4 pc of
                  Inl e \<Rightarrow> Inl e
                | Inr (ev_end, g5) \<Rightarrow> Inr (True, evs @ ev_end, g5))))"

definition move_piece ::
  "LudoGame \<Rightarrow> PlayerColor \<Rightarrow> int \<Rightarrow> error + bool \<times> GameEvent list \<times> LudoGame"
where
  "move_piece g pc pid =
     (if current_player g \<noteq> Some pc \<or> game_state g \<noteq> MOVING_PIECE then Inr (False, [], g)
      else
        (case lookup_player g pc of
           Inl e \<Rightarrow> Inl e
         | Inr player \<Rightarrow>
             if pid < 0 \<or> pid \<ge> 4 then Inr (False, [], g)
             else if length (pieces player) \<le> nat pid then Inl IndexError
             else
               (let piece = pieces player ! nat pid in
                case calculate_new_position g piece (dice_value g) of
                  Inl e \<Rightarrow> Inl e
                | Inr new_position \<Rightarrow>
                    (case is_valid_move g piece new_position of
                       Inl e \<Rightarrow> Inl e
                     | Inr valid \<Rightarrow>
                         if \<not> valid then
                           Inr (False,
                                [GameEvent INVALID_MOVE (InvalidData pid (dice_value g)) (Some pc)],
                                g)
                         else execute_move g pc pid piece new_position))))"

subsection \<open>Snapshot and reset\<close>

text \<open>
  \<^verbatim>\<open>get_game_state\<close> builds nested dictionaries. Python compares dictionaries without
  regard to insertion order, so the \<^verbatim>\<open>"players"\<close> dictionary is a map.
\<close>

record PieceSnapshot =
  snap_piece_id :: int
  snap_position :: int
  snap_is_home :: bool
  snap_is_safe :: bool

record PlayerSnapshot =
  snap_home_count :: int
  snap_has_won :: bool
  snap_pieces :: "PieceSnapshot list"

record Snapshot =
  snap_game_state :: GameState
  snap_current_player :: "PlayerColor option"
  snap_dice_value :: int
  snap_players :: "PlayerColor \<Rightarrow> PlayerSnapshot option"

definition piece_snapshot :: "Piece \<Rightarrow> PieceSnapshot" where
  "piece_snapshot piece =
     \<lparr>snap_piece_id = piece_id piece, snap_position = position piece,
      snap_is_home = is_home piece, snap_is_safe = is_safe piece\<rparr>"

definition player_snapshot :: "Player \<Rightarrow> PlayerSnapshot" where
  "player_snapshot player =
     \<lparr>snap_home_count = home_count player, snap_has_won = has_won player,
      snap_pieces = map piece_snapshot (pieces player)\<rparr>"

definition get_game_state :: "LudoGame \<Rightarrow> Snapshot" where
  "get_game_state g =
     \<lparr>snap_game_state = game_state g, snap_current_player = current_player g,
      snap_dice_value = dice_value g,
      snap_players = map_of (map (\<lambda>(c, player). (c, player_snapshot player)) (players g))\<rparr>"

definition reset_game :: "LudoGame \<Rightarrow> GameEvent list \<times> LudoGame" where
  "reset_game g =
     (let g1 = g\<lparr>players :=
                   map (\<lambda>(c, player). (c, player\<lparr>pieces := map piece_reset (pieces player),
                                                  home_count := 0\<rparr>))
                     (players g),
                 current_player := None, game_state := WAITING_FOR_PLAYERS, dice_value := 0\<rparr>
      in if length (players g1) = 4 then start_game g1 else ([], g1))"

subsection \<open>Runs of public operations\<close>

text \<open>
  A caller drives the engine through its public methods. \<open>RollDice d\<close> is a call of
  \<^verbatim>\<open>roll_dice()\<close> in which \<^verbatim>\<open>random.randint(1, 6)\<close> would draw \<open>d\<close>. A call that raises
  leaves the game as it was, and the caller goes on with the same object.
\<close>

datatype Op =
  AddPlayer PlayerColor
  | RemovePlayer PlayerColor
  | AddEventListener
  | RollDice int
  | GetValidMoves PlayerColor
  | MovePiece PlayerColor int
  | GetGameState
  | ResetGame

datatype Result =
  RBool bool
  | RInt int
  | RMoves "(Piece \<times> int) list"
  | RSnapshot Snapshot
  | RNone
  | RRaise error

fun step :: "LudoGame \<Rightarrow> Op \<Rightarrow> Result \<times> GameEvent list \<times> LudoGame" where
  "step g (AddPlayer c) = (case add_player g c of (b, evs, g1) \<Rightarrow> (RBool b, evs, g1))"
| "step g (RemovePlayer c) = (case remove_player g c of (b, g1) \<Rightarrow> (RBool b, [], g1))"
| "step g AddEventListener = (RNone, [], g)"
| "step g (RollDice d) = (case roll_dice g d of (v, evs, g1) \<Rightarrow> (RInt v, evs, g1))"
| "step g (GetValidMoves c) =
     (case get_valid_moves g c of Inl e \<Rightarrow> (RRaise e, [], g) | Inr ms \<Rightarrow> (RMoves ms, [], g))"
| "step g (MovePiece c i) =
     (case move_piece g c i of
        Inl e \<Rightarrow> (RRaise e, [], g)
      | Inr (b, evs, g1) \<Rightarrow> (RBool b, evs, g1))"
| "step g GetGameState = (RSnapshot (get_game_state g), [], g)"
| "step g ResetGame = (case reset_game g of (evs, g1) \<Rightarrow> (RNone, evs, g1))"

text \<open>The dice shows one of 1 to 6.\<close>

fun op_ok :: "Op \<Rightarrow> bool" where
  "op_ok (RollDice d) \<longleftrightarrow> 1 \<le> d \<and> d \<le> 6"
| "op_ok _ \<longleftrightarrow> True"

text \<open>The game after a sequence of calls, and the results and events of each call.\<close>

fun run :: "LudoGame \<Rightarrow> Op list \<Rightarrow> LudoGame" where
  "run g [] = g"
| "run g (x # xs) = run (snd (snd (step g x))) xs"

fun trace :: "LudoGame \<Rightarrow> Op list \<Rightarrow> (Result \<times> GameEvent list) list" where
  "trace g [] = []"
| "trace g (x # xs) =
     (case step g x of (r, evs, g1) \<Rightarrow> (r, evs) # trace g1 xs)"

definition emits :: "EventType \<Rightarrow> GameEvent list \<Rightarrow> bool" where
  "emits t evs \<longleftrightarrow> list_ex (\<lambda>e. event_type e = t) evs"

subsection \<open>Notions used to state the properties\<close>

text \<open>The scenario of the tests: the four colours join a new game in the order of the enum.\<close>

definition four_players :: "Op list" where
  "four_players = [AddPlayer RED, AddPlayer GREEN, AddPlayer YELLOW, AddPlayer BLUE]"

text \<open>The first round after the start: every colour rolls a 6 and enters its piece 0.\<close>

definition all_six :: "Op list" where
  "all_six =
     [RollDice 6, MovePiece RED 0, RollDice 6, MovePiece GREEN 0,
      RollDice 6, MovePiece YELLOW 0, RollDice 6, MovePiece BLUE 0]"

definition round1 :: "Op list" where
  "round1 = four_players @ all_six"

text \<open>
  Three such rounds bring BLUE's piece 0 from its start cell 39 to 51; in the fourth round
  RED, GREEN and YELLOW move by 6 again and BLUE rolls a 1.
\<close>

definition blue_rolls_one :: "Op list" where
  "blue_rolls_one = four_players @ all_six @ all_six @ all_six @
     [RollDice 6, MovePiece RED 0, RollDice 6, MovePiece GREEN 0,
      RollDice 6, MovePiece YELLOW 0, RollDice 1]"

text \<open>
  Two rounds of sixes, a third in which GREEN enters its piece 1 on its start cell 13
  instead, and then RED, at 12, rolls a 1.
\<close>

definition red_rolls_one :: "Op list" where
  "red_rolls_one = four_players @ all_six @ all_six @
     [RollDice 6, MovePiece RED 0, RollDice 6, MovePiece GREEN 1,
      RollDice 6, MovePiece YELLOW 0, RollDice 6, MovePiece BLUE 0, RollDice 1]"

text \<open>
  A whole game: in each of sixteen rounds every colour rolls a 6 and moves the piece
  named for it. The pieces of the four colours stay on different cells, BLUE needs four
  moves for each of its pieces, and its last piece comes home in the last call of
  \<open>blue_wins\<close>; \<open>blue_to_move\<close> is the run up to that call.
\<close>

definition sixes :: "int \<Rightarrow> int \<Rightarrow> int \<Rightarrow> int \<Rightarrow> Op list" where
  "sixes r g y b =
     [RollDice 6, MovePiece RED r, RollDice 6, MovePiece GREEN g,
      RollDice 6, MovePiece YELLOW y, RollDice 6, MovePiece BLUE b]"

definition blue_to_move :: "Op list" where
  "blue_to_move = four_players
     @ sixes 0 0 0 0 @ sixes 0 0 0 0 @ sixes 0 0 0 0 @ sixes 0 0 0 0
     @ sixes 0 0 0 1 @ sixes 0 0 0 1 @ sixes 0 0 1 1 @ sixes 0 0 1 1
     @ sixes 0 1 1 2 @ sixes 0 1 1 2 @ sixes 1 1 1 2 @ sixes 1 1 1 2
     @ sixes 1 1 2 3 @ sixes 1 1 2 3 @ sixes 1 1 2 3
     @ [RollDice 6, MovePiece RED 1, RollDice 6, MovePiece GREEN 1,
        RollDice 6, MovePiece YELLOW 2, RollDice 6]"

definition blue_wins :: "Op list" where
  "blue_wins = blue_to_move @ [MovePiece BLUE 3]"

text \<open>The game at the end of \<open>blue_wins\<close>.\<close>

definition blue_won :: LudoGame where
  "blue_won =
     \<lparr>players =
        [(RED, (Player_init RED)\<lparr>pieces :=
            [(Piece_init RED 0)\<lparr>position := 52, is_home := True\<rparr>,
             (Piece_init RED 1)\<lparr>position := 30\<rparr>, Piece_init RED 2, Piece_init RED 3],
            home_count := 1\<rparr>),
         (GREEN, (Player_init GREEN)\<lparr>pieces :=
            [(Piece_init GREEN 0)\<lparr>position := 66, is_home := True\<rparr>,
             (Piece_init GREEN 1)\<lparr>position := 66, is_home := True\<rparr>,
             Piece_init GREEN 2, Piece_init GREEN 3],
            home_count := 2\<rparr>),
         (YELLOW, (Player_init YELLOW)\<lparr>pieces :=
            [(Piece_init YELLOW 0)\<lparr>position := 80, is_home := True\<rparr>,
             (Piece_init YELLOW 1)\<lparr>position := 80, is_home := True\<rparr>,
             (Piece_init YELLOW 2)\<lparr>position := 44\<rparr>, Piece_init YELLOW 3],
            home_count := 2\<rparr>),
         (BLUE, (Player_init BLUE)\<lparr>pieces :=
            [(Piece_init BLUE 0)\<lparr>position := 94, is_home := True\<rparr>,
             (Piece_init BLUE 1)\<lparr>position := 94, is_home := True\<rparr>,
             (Piece_init BLUE 2)\<lparr>position := 94, is_home := True\<rparr>,
             (Piece_init BLUE 3)\<lparr>position := 94, is_home := True\<rparr>],
            home_count := 4\<rparr>)],
      current_player = Some BLUE, game_state = GAME_OVER, dice_value = 6\<rparr>"

definition result_of :: "Result \<times> GameEvent list \<times> LudoGame \<Rightarrow> Result" where
  "result_of x = fst x"

definition events_of :: "Result \<times> GameEvent list \<times> LudoGame \<Rightarrow> GameEvent list" where
  "events_of x = fst (snd x)"

definition state_of :: "Result \<times> GameEvent list \<times> LudoGame \<Rightarrow> LudoGame" where
  "state_of x = snd (snd x)"

text \<open>The event \<^verbatim>\<open>move_piece\<close> emits when it rejects a destination.\<close>

definition invalid_move_event :: "LudoGame \<Rightarrow> PlayerColor \<Rightarrow> int \<Rightarrow> GameEvent" where
  "invalid_move_event g pc pid =
     GameEvent INVALID_MOVE (InvalidData pid (dice_value g)) (Some pc)"






subsection \<open>Well-formed games\<close>

text \<open>
  The cells a piece of a colour may stand on: the base sentinel, the track, or the home
  stretch of the colour.
\<close>

definition position_allowed :: "PlayerColor \<Rightarrow> int \<Rightarrow> bool" where
  "position_allowed c pos \<longleftrightarrow>
     pos = - 1 \<or> (0 \<le> pos \<and> pos < board_size) \<or> pos \<in> set (home_stretch_positions c)"

definition total_home_count :: "LudoGame \<Rightarrow> int" where
  "total_home_count g = sum_list (map (\<lambda>(c, player). home_count player) (players g))"

definition all_pieces :: "LudoGame \<Rightarrow> Piece list" where
  "all_pieces g = concat (map (\<lambda>(c, player). pieces player) (players g))"

text \<open>
  What every game built through the public methods satisfies: a piece carries the colour
  of its player; a finished piece stands in the home stretch of its colour and any other
  piece at base or on the track; a player holds the pieces 0 to 3 in this order, the
  constants of its colour, and a \<^verbatim>\<open>home_count\<close> that counts its finished pieces; the keys
  of the dictionary are distinct; in the phase \<^verbatim>\<open>MOVING_PIECE\<close> the dice shows 1 to 6.
\<close>

definition piece_ok :: "PlayerColor \<Rightarrow> Piece \<Rightarrow> bool" where
  "piece_ok c p \<longleftrightarrow>
     player_color p = c
     \<and> (if is_home p then position p \<in> set (home_stretch_positions c)
        else - 1 \<le> position p \<and> position p < board_size)"

definition player_ok :: "PlayerColor \<Rightarrow> Player \<Rightarrow> bool" where
  "player_ok c pl \<longleftrightarrow>
     color pl = c \<and> start_position pl = get_start_position c
     \<and> home_position pl = get_home_position c
     \<and> map piece_id (pieces pl) = [0, 1, 2, 3]
     \<and> list_all (piece_ok c) (pieces pl)
     \<and> home_count pl = int (length (filter is_home (pieces pl)))"

definition game_ok :: "LudoGame \<Rightarrow> bool" where
  "game_ok g \<longleftrightarrow>
     distinct (map fst (players g))
     \<and> list_all (\<lambda>(c, pl). player_ok c pl) (players g)
     \<and> (game_state g = MOVING_PIECE \<longrightarrow> 1 \<le> dice_value g \<and> dice_value g \<le> 6)"

text \<open>
  The game after the moved piece \<open>p\<close> of the colour \<open>pc\<close> is written back with all its
  fields, and counted in \<^verbatim>\<open>home_count\<close> when it is finished.
\<close>

definition write_moved :: "LudoGame \<Rightarrow> PlayerColor \<Rightarrow> Piece \<Rightarrow> LudoGame" where
  "write_moved g pc p =
     (if is_home p
      then modify_player (store_piece g p) pc (\<lambda>pl. pl\<lparr>home_count := home_count pl + 1\<rparr>)
      else store_piece g p)"

text \<open>
  The moved piece with the fields \<^verbatim>\<open>move_piece\<close> leaves it with, and the game after all
  the writes of a move to \<open>dest\<close> in which \<^verbatim>\<open>_check_capture\<close> returned \<open>captured\<close>.
\<close>

definition moved_piece :: "PlayerColor \<Rightarrow> Piece \<Rightarrow> int \<Rightarrow> Piece" where
  "moved_piece pc piece dest =
     piece\<lparr>position := dest,
           is_home := (is_home piece \<or> dest \<in> set (home_stretch_positions pc)),
           is_safe := (dest \<in> safe_positions)\<rparr>"

definition moved_state :: "LudoGame \<Rightarrow> PlayerColor \<Rightarrow> Piece \<Rightarrow> int \<Rightarrow> Piece option \<Rightarrow> LudoGame" where
  "moved_state g pc piece dest captured =
     (case captured of
        None \<Rightarrow> write_moved g pc (moved_piece pc piece dest)
      | Some cp \<Rightarrow> store_piece (write_moved g pc (moved_piece pc piece dest)) (piece_reset cp))"

text \<open>
  The events of these writes, in emission order: \<^verbatim>\<open>PIECE_HOME\<close> when the destination is
  in the home stretch, \<^verbatim>\<open>PIECE_CAPTURED\<close> when a piece was captured, then \<^verbatim>\<open>PIECE_MOVED\<close>.
\<close>

definition moved_events ::
  "LudoGame \<Rightarrow> PlayerColor \<Rightarrow> int \<Rightarrow> Piece \<Rightarrow> int \<Rightarrow> Piece option \<Rightarrow> GameEvent list"
where
  "moved_events g pc pid piece dest captured =
     (if dest \<in> set (home_stretch_positions pc)
      then [GameEvent PIECE_HOME (HomeData pid pc) (Some pc)] else [])
     @ (case captured of
          None \<Rightarrow> []
        | Some cp \<Rightarrow>
            [GameEvent PIECE_CAPTURED
               (CapturedData (player_color cp, piece_id cp) (player_color piece, piece_id piece))
               (Some pc)])
     @ [GameEvent PIECE_MOVED (MovedData pid (position piece) dest (dice_value g)) (Some pc)]"

text \<open>
  The terminal cell of a colour is the last cell of its home stretch.
\<close>

definition terminal_home_cell :: "PlayerColor \<Rightarrow> int" where
  "terminal_home_cell c = last (home_stretch_positions c)"

text \<open>
  A game starts with a \<^verbatim>\<open>GAME_STARTED\<close> event, which only \<^verbatim>\<open>_start_game\<close> emits (called
  by \<^verbatim>\<open>add_player\<close> and \<^verbatim>\<open>reset_game\<close>). \<open>in_play\<close> holds of the two phases in which a
  roll or a move can have an effect. \<open>silent\<close> says of a call and its outcome that a
  move failed or a roll returned 0, without any event, and that any other call emitted
  no \<^verbatim>\<open>GAME_OVER\<close>.
\<close>

fun in_play :: "GameState \<Rightarrow> bool" where
  "in_play ROLLING_DICE \<longleftrightarrow> True"
| "in_play MOVING_PIECE \<longleftrightarrow> True"
| "in_play _ \<longleftrightarrow> False"

fun silent :: "Op \<Rightarrow> Result \<times> GameEvent list \<Rightarrow> bool" where
  "silent (MovePiece c i) (r, evs) \<longleftrightarrow> r = RBool False \<and> evs = []"
| "silent (RollDice d) (r, evs) \<longleftrightarrow> r = RInt 0 \<and> evs = []"
| "silent _ (r, evs) \<longleftrightarrow> \<not> emits EV_GAME_OVER evs"

section \<open>Properties\<close>

subsection \<open>Small facts about runs\<close>

text \<open>The definitions a concrete run is evaluated with.\<close>

lemmas eval_defs = four_players_def all_six_def round1_def blue_rolls_one_def
  red_rolls_one_def sixes_def blue_to_move_def blue_wins_def
  LudoGame_init_def add_player_def
  remove_player_def start_game_def reset_game_def
  Player_init_def Piece_init_def roll_dice_def move_piece_def lookup_player_def
  calculate_new_position_def should_enter_home_stretch_def is_valid_move_def
  execute_move_def apply_move_def store_piece_def modify_player_def is_in_final_home_def
  mark_home_def
  resolve_capture_def check_capture_def finish_turn_def has_won_def
  get_pieces_in_final_home_def end_game_def next_turn_def next_turn_loop.simps
  player_order_def board_size_def safe_positions_def same_piece_def piece_reset_def Let_def

lemma run_append: "run g (xs @ ys) = run (run g xs) ys"
  by (induction xs arbitrary: g) simp_all

lemma four_players_state:
  "run LudoGame_init four_players =
     \<lparr>players = map (\<lambda>c. (c, Player_init c)) [RED, GREEN, YELLOW, BLUE],
      current_player = Some RED, game_state = ROLLING_DICE, dice_value = 0\<rparr>"
  by (simp add: four_players_def LudoGame_init_def add_player_def start_game_def)

subsection \<open>Removing a player\<close>

text \<open>
  Claim C10. In every game state, whatever the phase, \<^verbatim>\<open>remove_player(color)\<close> returns
  true exactly when the colour is present; the colour is then gone from the dictionary,
  every other entry and the order of the keys are kept, and a call for an absent colour
  changes nothing. The phase, the current player and the dice value are never changed.
\<close>

theorem remove_player_frame:
  "fst (remove_player g c) = (map_of (players g) c \<noteq> None)
   \<and> map_of (players (snd (remove_player g c))) = (map_of (players g))(c := None)
   \<and> map fst (players (snd (remove_player g c))) = filter (\<lambda>k. k \<noteq> c) (map fst (players g))
   \<and> (map_of (players g) c = None \<longrightarrow> snd (remove_player g c) = g)
   \<and> game_state (snd (remove_player g c)) = game_state g
   \<and> current_player (snd (remove_player g c)) = current_player g
   \<and> dice_value (snd (remove_player g c)) = dice_value g"
proof -
  have keys: "map fst (AList.delete c ps) = filter (\<lambda>k. k \<noteq> c) (map fst ps)"
    for ps :: "(PlayerColor \<times> Player) list"
    by (induction ps) (auto simp: AList.delete_eq)
  have absent: "map_of ps c = None \<Longrightarrow> filter (\<lambda>k. k \<noteq> c) (map fst ps) = map fst ps"
    for ps :: "(PlayerColor \<times> Player) list"
    by (induction ps) (auto split: if_splits)
  have "(map_of (players g))(c := None) = map_of (players g)" if "map_of (players g) c = None"
    using that by (simp add: fun_upd_idem)
  then show ?thesis
    by (auto simp: remove_player_def keys absent AList.delete_conv' fun_upd_def restrict_map_def)
qed

theorem remove_player_frame_witness:
  "fst (remove_player (run LudoGame_init (four_players @ [RollDice 3])) GREEN)
   \<and> map fst (players (snd (remove_player (run LudoGame_init (four_players @ [RollDice 3])) GREEN)))
       = [RED, YELLOW, BLUE]
   \<and> game_state (snd (remove_player (run LudoGame_init (four_players @ [RollDice 3])) GREEN))
       = MOVING_PIECE
   \<and> \<not> fst (remove_player (run LudoGame_init [AddPlayer RED]) GREEN)
   \<and> snd (remove_player (run LudoGame_init [AddPlayer RED]) GREEN)
       = run LudoGame_init [AddPlayer RED]"
  using remove_player_frame [of "run LudoGame_init (four_players @ [RollDice 3])" GREEN]
    remove_player_frame [of "run LudoGame_init [AddPlayer RED]" GREEN]
  by (simp add: four_players_def LudoGame_init_def add_player_def start_game_def roll_dice_def)

lemma rolled_state:
  "run LudoGame_init (four_players @ [RollDice d]) =
     \<lparr>players = map (\<lambda>c. (c, Player_init c)) [RED, GREEN, YELLOW, BLUE],
      current_player = Some RED, game_state = MOVING_PIECE, dice_value = d\<rparr>"
  by (simp add: run_append four_players_state roll_dice_def)

subsection \<open>The result of a move\<close>

lemma execute_move_True:
  "execute_move g pc pid piece np = Inr (ok, evs, g') \<Longrightarrow> ok"
  by (auto simp: execute_move_def Let_def split: sum.splits prod.splits)

subsection \<open>The start of a game\<close>

lemma all_colors: "c \<in> {RED, GREEN, YELLOW, BLUE}"
  by (cases c) simp_all

lemma Player_init_fields:
  "color (Player_init c) = c"
  "start_position (Player_init c) = get_start_position c"
  "home_position (Player_init c) = get_home_position c"
  "home_count (Player_init c) = 0"
  "pieces (Player_init c) = [Piece_init c 0, Piece_init c 1, Piece_init c 2, Piece_init c 3]"
  by (simp_all add: Player_init_def)

lemma four_distinct_colors:
  fixes cs :: "PlayerColor list"
  assumes "distinct cs" and "length cs = 4"
  shows "c \<in> set cs"
proof (rule ccontr)
  assume "c \<notin> set cs"
  then have "set cs \<subseteq> {RED, GREEN, YELLOW, BLUE} - {c}"
    using all_colors by auto
  then have "card (set cs) \<le> card ({RED, GREEN, YELLOW, BLUE} - {c})"
    by (intro card_mono) simp_all
  also have "\<dots> \<le> 3"
    by (cases c) simp_all
  finally show False
    using assms by (simp add: distinct_card)
qed

lemma add_players_run:
  "distinct (map fst (players g) @ cs) \<Longrightarrow> length (players g) + length cs < 4 \<Longrightarrow>
   run g (map AddPlayer cs) = g\<lparr>players := players g @ map (\<lambda>c. (c, Player_init c)) cs\<rparr>"
proof (induction cs arbitrary: g)
  case Nil
  then show ?case by simp
next
  case (Cons c cs)
  have absent: "map_of (players g) c = None"
    using Cons.prems(1) by (simp add: map_of_eq_None_iff)
  let ?g1 = "g\<lparr>players := players g @ [(c, Player_init c)]\<rparr>"
  have step1: "snd (snd (step g (AddPlayer c))) = ?g1"
    using absent Cons.prems(2) by (simp add: add_player_def)
  have "run ?g1 (map AddPlayer cs)
      = ?g1\<lparr>players := players ?g1 @ map (\<lambda>c. (c, Player_init c)) cs\<rparr>"
    using Cons.prems by (intro Cons.IH) auto
  then show ?case
    using step1 by simp
qed

lemma four_added_state:
  assumes "distinct cs" and "length cs = 4"
  shows "run LudoGame_init (map AddPlayer cs) =
     \<lparr>players = map (\<lambda>c. (c, Player_init c)) cs,
      current_player = Some RED, game_state = ROLLING_DICE, dice_value = 0\<rparr>"
proof -
  obtain bs c where cs: "cs = bs @ [c]"
    using assms(2) by (cases cs rule: rev_cases) auto
  have three: "run LudoGame_init (map AddPlayer bs)
      = \<lparr>players = map (\<lambda>c. (c, Player_init c)) bs, current_player = None,
         game_state = WAITING_FOR_PLAYERS, dice_value = 0\<rparr>"
    using add_players_run [of LudoGame_init bs] assms cs
    by (simp add: LudoGame_init_def)
  have "map_of (map (\<lambda>c. (c, Player_init c)) bs) c = None"
    using assms(1) cs by (simp add: map_of_eq_None_iff image_image)
  then show ?thesis
    using assms(2) cs
    by (simp add: run_append three add_player_def start_game_def)
qed

lemma present_after_four:
  assumes "distinct cs" and "length cs = 4"
  shows "map_of (map (\<lambda>c. (c, Player_init c)) cs) c = Some (Player_init c)"
  using four_distinct_colors [OF assms, of c]
  by (simp add: map_of_map_restrict)

text \<open>
  Claim C3, as amended. When the four colours have joined a new game, in any order, RED
  is the current player and the phase is \<^verbatim>\<open>ROLLING_DICE\<close>; after a roll of 6 the phase is
  \<^verbatim>\<open>MOVING_PIECE\<close> and \<^verbatim>\<open>get_valid_moves\<close> for RED has exactly four entries, the pieces
  0 to 3 in this order, each with RED's start cell 0 as destination.
\<close>

theorem start_scenario_legal_moves:
  assumes "distinct cs" and "length cs = 4"
  shows "current_player (run LudoGame_init (map AddPlayer cs)) = Some RED
    \<and> game_state (run LudoGame_init (map AddPlayer cs)) = ROLLING_DICE
    \<and> game_state (run LudoGame_init (map AddPlayer cs @ [RollDice 6])) = MOVING_PIECE
    \<and> get_valid_moves (run LudoGame_init (map AddPlayer cs @ [RollDice 6])) RED
        = Inr [(Piece_init RED 0, 0), (Piece_init RED 1, 0),
               (Piece_init RED 2, 0), (Piece_init RED 3, 0)]"
proof -
  let ?ps = "map (\<lambda>c. (c, Player_init c)) cs"
  let ?g = "\<lparr>players = ?ps, current_player = Some RED, game_state = MOVING_PIECE,
             dice_value = 6\<rparr>"
  have rolled: "run LudoGame_init (map AddPlayer cs @ [RollDice 6]) = ?g"
    by (simp add: run_append four_added_state [OF assms] roll_dice_def)
  have red: "lookup_player ?g RED = Inr (Player_init RED)"
    by (simp add: lookup_player_def present_after_four [OF assms])
  have dest: "calculate_new_position ?g (Piece_init RED i) 6 = Inr 0" for i
    by (simp add: calculate_new_position_def red Piece_init_def Player_init_fields)
  have valid: "is_valid_move ?g (Piece_init RED i) 0 = Inr True" for i
    by (simp add: is_valid_move_def Piece_init_def)
  have "get_valid_moves ?g RED
        = Inr [(Piece_init RED 0, 0), (Piece_init RED 1, 0),
               (Piece_init RED 2, 0), (Piece_init RED 3, 0)]"
    by (simp add: get_valid_moves_def red dest valid Player_init_fields)
  then show ?thesis
    by (simp add: rolled four_added_state [OF assms])
qed

theorem start_scenario_legal_moves_witness:
  "distinct [RED, GREEN, YELLOW, BLUE] \<and> length [RED, GREEN, YELLOW, BLUE] = 4
   \<and> get_valid_moves (run LudoGame_init (four_players @ [RollDice 6])) RED
        = Inr [(Piece_init RED 0, 0), (Piece_init RED 1, 0),
               (Piece_init RED 2, 0), (Piece_init RED 3, 0)]"
  using start_scenario_legal_moves [of "[RED, GREEN, YELLOW, BLUE]"]
  by (simp add: four_players_def)

text \<open>
  Claim C3 as stated fails: the list is not the single entry for piece 0.
\<close>

theorem start_scenario_four_entries:
  "get_valid_moves (run LudoGame_init (four_players @ [RollDice 6])) RED
     \<noteq> Inr [(Piece_init RED 0, 0)]"
proof -
  have "get_valid_moves \<lparr>players = map (\<lambda>c. (c, Player_init c)) [RED, GREEN, YELLOW, BLUE],
      current_player = Some RED, game_state = MOVING_PIECE, dice_value = 6\<rparr> RED
      = Inr [(Piece_init RED 0, 0), (Piece_init RED 1, 0),
               (Piece_init RED 2, 0), (Piece_init RED 3, 0)]"
    by (simp add: get_valid_moves_def lookup_player_def Player_init_def Piece_init_def
        calculate_new_position_def is_valid_move_def)
  then show ?thesis
    by (simp add: rolled_state)
qed

subsection \<open>Board geometry\<close>

lemma wrap_once:
  fixes n :: int
  assumes "52 \<le> n" and "n < 104"
  shows "n mod 52 = n - 52"
proof -
  have "(n - 52) mod 52 = n - 52"
    using assms by (intro mod_pos_pos_trivial) linarith+
  then show ?thesis by simp
qed

lemma track_destination:
  assumes "lookup_player g (player_color piece) = Inr player"
    and "\<not> is_home piece" and "0 \<le> position piece" and "position piece < 52"
    and "0 \<le> d" and "d \<le> 52"
  shows "calculate_new_position g piece d =
     Inr (if position piece + d < 52 then position piece + d
          else if position piece < start_position player
                  \<and> start_position player \<le> position piece + d
          then (position piece + d) mod 52
          else home_position player + (position piece + d) mod 52)"
proof -
  have wrap: "(position piece + d) mod 52 = position piece + d - 52"
    if "52 \<le> position piece + d"
    using that assms by (intro wrap_once) linarith+
  show ?thesis
    using assms wrap
    by (auto simp: calculate_new_position_def should_enter_home_stretch_def board_size_def Let_def)
qed

text \<open>
  Claim C5. For a piece on the track (not finished, position in 0 to 51) and a step
  count up to one lap, \<^verbatim>\<open>_calculate_new_position\<close> returns the plain sum while it stays
  below 52; once the sum reaches 52 the piece enters the home stretch of its colour, at
  the home-entry cell plus the sum modulo 52, unless it started before its start cell and
  reaches or passes it, in which case the sum wraps modulo 52. In particular a piece at
  49 with dice 1, for the colour whose home-entry cell is 50, gets destination 50, the
  first cell of that colour's home stretch, which is not 1 modulo 52.
\<close>

theorem calculate_new_position_geometry:
  assumes "lookup_player g (player_color piece) = Inr player"
    and "\<not> is_home piece" and "0 \<le> position piece" and "position piece < 52"
    and "0 \<le> d" and "d \<le> 52"
  shows "calculate_new_position g piece d =
     Inr (if position piece + d < 52 then position piece + d
          else if position piece < start_position player
                  \<and> start_position player \<le> position piece + d
          then (position piece + d) mod 52
          else home_position player + (position piece + d) mod 52)
    \<and> (position piece = 49 \<and> d = 1 \<and> home_position player = 50
          \<longrightarrow> calculate_new_position g piece d = Inr 50
              \<and> 50 = hd (home_stretch_positions RED) \<and> (50::int) \<noteq> 1 mod 52)"
proof -
  note main = track_destination [OF assms]
  have "calculate_new_position g piece d = Inr 50"
    if "position piece = 49" and "d = 1" and "home_position player = 50"
    using main that by simp
  then show ?thesis
    using main by simp
qed

theorem calculate_new_position_geometry_witness:
  "calculate_new_position (run LudoGame_init four_players)
      ((Piece_init RED 0)\<lparr>position := 49\<rparr>) 1 = Inr 50
   \<and> calculate_new_position (run LudoGame_init four_players)
      ((Piece_init GREEN 0)\<lparr>position := 50\<rparr>) 3 = Inr 64
   \<and> calculate_new_position (run LudoGame_init four_players)
      ((Piece_init GREEN 0)\<lparr>position := 10\<rparr>) 45 = Inr 3"
proof -
  let ?g = "run LudoGame_init four_players"
  have red: "lookup_player ?g (player_color ((Piece_init RED 0)\<lparr>position := 49\<rparr>))
      = Inr (Player_init RED)"
    and green: "lookup_player ?g (player_color ((Piece_init GREEN 0)\<lparr>position := p\<rparr>))
      = Inr (Player_init GREEN)" for p
    by (simp_all add: four_players_state lookup_player_def Piece_init_def)
  show ?thesis
    using calculate_new_position_geometry [OF red, of 1]
      calculate_new_position_geometry [OF green, of 50 3]
      calculate_new_position_geometry [OF green, of 10 45]
    by (simp add: Piece_init_def Player_init_fields)
qed

subsection \<open>Enumerating the legal moves\<close>









subsection \<open>The invariant under the simple calls\<close>

lemma piece_ok_init: "piece_ok c (Piece_init c i)"
  by (simp add: piece_ok_def Piece_init_def board_size_def)

lemma player_ok_init: "player_ok c (Player_init c)"
  by (simp add: player_ok_def Player_init_def piece_ok_init) (simp add: Piece_init_def)

lemma game_ok_init: "game_ok LudoGame_init"
  by (simp add: game_ok_def LudoGame_init_def)

lemma game_ok_frame:
  assumes "game_ok g" and "players g' = players g"
    and "game_state g' = MOVING_PIECE \<Longrightarrow> 1 \<le> dice_value g' \<and> dice_value g' \<le> 6"
  shows "game_ok g'"
  using assms by (simp add: game_ok_def)

lemma map_values_keys: "map fst (map (\<lambda>(c, pl). (c, f c pl)) ps) = map fst ps"
  by (induction ps) auto

lemma map_values_all:
  "list_all (\<lambda>(c, pl). P c pl) (map (\<lambda>(c, pl). (c, f c pl)) ps)
     = list_all (\<lambda>(c, pl). P c (f c pl)) ps"
  by (induction ps) auto

lemma game_ok_start_game: "game_ok g \<Longrightarrow> game_ok (snd (start_game g))"
  by (auto simp: start_game_def game_ok_def)

lemma game_ok_add_player:
  assumes "game_ok g"
  shows "game_ok (snd (snd (add_player g c)))"
proof (cases "map_of (players g) c = None")
  case False
  then show ?thesis
    using assms by (auto simp: add_player_def)
next
  case True
  let ?g1 = "g\<lparr>players := players g @ [(c, Player_init c)]\<rparr>"
  have "c \<notin> fst ` set (players g)"
    using True by (simp add: map_of_eq_None_iff)
  then have ok1: "game_ok ?g1"
    using assms by (simp add: game_ok_def player_ok_init)
  have "snd (snd (add_player g c)) = (if length (players ?g1) = 4 then snd (start_game ?g1) else ?g1)"
    using True by (simp add: add_player_def Let_def split: prod.splits)
  then show ?thesis
    using ok1 game_ok_start_game [OF ok1] by simp
qed

lemma game_ok_remove_player:
  assumes "game_ok g"
  shows "game_ok (snd (remove_player g c))"
proof -
  have "distinct (map fst (AList.delete c (players g)))"
    using assms by (simp add: game_ok_def distinct_delete)
  moreover have "list_all (\<lambda>(c, pl). player_ok c pl) (AList.delete c (players g))"
    using assms by (simp add: game_ok_def AList.delete_eq list_all_iff)
  ultimately show ?thesis
    using assms by (simp add: remove_player_def game_ok_def)
qed

lemma game_ok_roll_dice:
  assumes "game_ok g" and "1 \<le> d" and "d \<le> 6"
  shows "game_ok (snd (snd (roll_dice g d)))"
  using assms by (simp add: roll_dice_def game_ok_def)

lemma piece_ok_reset: "piece_ok c p \<Longrightarrow> piece_ok c (piece_reset p)"
  by (simp add: piece_ok_def piece_reset_def board_size_def)

lemma player_ok_reset:
  assumes "player_ok c pl"
  shows "player_ok c (pl\<lparr>pieces := map piece_reset (pieces pl), home_count := 0\<rparr>)"
proof -
  have "map (piece_id \<circ> piece_reset) (pieces pl) = map piece_id (pieces pl)"
    by (simp add: piece_reset_def)
  moreover have "filter is_home (map piece_reset (pieces pl)) = []"
    by (simp add: filter_empty_conv piece_reset_def)
  ultimately show ?thesis
    using assms by (auto simp: player_ok_def list_all_iff piece_ok_reset)
qed

lemma game_ok_reset:
  assumes "game_ok g"
  shows "game_ok (snd (reset_game g))"
proof -
  define ps where "ps = map (\<lambda>(c, player). (c, player\<lparr>pieces := map piece_reset (pieces player),
                                                  home_count := 0\<rparr>)) (players g)"
  let ?g1 = "g\<lparr>players := ps, current_player := None, game_state := WAITING_FOR_PLAYERS,
               dice_value := 0\<rparr>"
  have keys: "map fst ps = map fst (players g)"
    unfolding ps_def by (rule map_values_keys)
  have "list_all (\<lambda>(c, pl). player_ok c pl) ps"
    unfolding ps_def map_values_all
    using assms by (auto simp: game_ok_def list_all_iff player_ok_reset)
  then have ok1: "game_ok ?g1"
    using assms keys by (simp add: game_ok_def)
  have "snd (reset_game g) = (if length (players ?g1) = 4 then snd (start_game ?g1) else ?g1)"
    by (simp add: reset_game_def Let_def ps_def)
  then show ?thesis
    using ok1 game_ok_start_game [OF ok1] by simp
qed

subsection \<open>Writing one piece of a player\<close>

lemma four_ids:
  assumes "map piece_id ps = [0, 1, 2, 3]"
  shows "length ps = 4" and "i < 4 \<Longrightarrow> piece_id (ps ! i) = int i"
    and "distinct (map piece_id ps)"
proof -
  show len: "length ps = 4"
    using arg_cong [OF assms, of length] by simp
  show "distinct (map piece_id ps)"
    by (simp add: assms)
  assume "i < 4"
  then have "piece_id (ps ! i) = map piece_id ps ! i"
    using len by simp
  also have "\<dots> = int i"
  proof -
    from \<open>i < 4\<close> have "i = 0 \<or> i = 1 \<or> i = 2 \<or> i = 3" by linarith
    then show ?thesis by (auto simp: assms)
  qed
  finally show "piece_id (ps ! i) = int i" .
qed

lemma write_absent:
  assumes "\<forall>q \<in> set ps. \<not> same_piece q p"
  shows "map (\<lambda>q. if same_piece q p then p else q) ps = ps"
  using assms by (induction ps) simp_all

lemma write_ids:
  "map piece_id (map (\<lambda>q. if same_piece q p then p else q) ps) = map piece_id ps"
  by (induction ps) (simp_all add: same_piece_def)

lemma write_count:
  assumes "distinct (map piece_id ps)" and "q0 \<in> set ps" and "same_piece q0 p"
    and "\<not> is_home q0"
  shows "length (filter is_home (map (\<lambda>q. if same_piece q p then p else q) ps))
         = length (filter is_home ps) + (if is_home p then 1 else 0)"
  using assms
proof (induction ps)
  case Nil
  then show ?case by simp
next
  case (Cons a ps)
  show ?case
  proof (cases "a = q0")
    case True
    have "\<forall>q \<in> set ps. \<not> same_piece q p"
    proof (intro ballI notI)
      fix q
      assume q: "q \<in> set ps" and "same_piece q p"
      then have "piece_id q0 = piece_id q"
        using Cons.prems(3) by (simp add: same_piece_def)
      then have "piece_id q0 \<in> piece_id ` set ps"
        using q by simp
      then show False
        using Cons.prems(1) True by simp
    qed
    then have "map (\<lambda>q. if same_piece q p then p else q) ps = ps"
      by (rule write_absent)
    then show ?thesis
      using True Cons.prems(3,4) by simp
  next
    case False
    then have mem: "q0 \<in> set ps"
      using Cons.prems(2) by simp
    then have "piece_id a \<noteq> piece_id q0"
      using Cons.prems(1) by auto
    then have "\<not> same_piece a p"
      using Cons.prems(3) by (auto simp: same_piece_def)
    moreover have "length (filter is_home (map (\<lambda>q. if same_piece q p then p else q) ps))
         = length (filter is_home ps) + (if is_home p then 1 else 0)"
      using Cons.prems mem by (intro Cons.IH) simp_all
    ultimately show ?thesis by simp
  qed
qed

lemma write_same_home:
  assumes "\<forall>q \<in> set ps. same_piece q p \<longrightarrow> is_home q = is_home p"
  shows "filter is_home (map (\<lambda>q. if same_piece q p then p else q) ps)
       = map (\<lambda>q. if same_piece q p then p else q) (filter is_home ps)"
  using assms by (induction ps) auto

lemma player_write_other:
  assumes "player_ok c pl" and "player_color p \<noteq> c"
  shows "pl\<lparr>pieces := map (\<lambda>q. if same_piece q p then p else q) (pieces pl)\<rparr> = pl"
proof -
  have "\<forall>q \<in> set (pieces pl). \<not> same_piece q p"
    using assms by (auto simp: player_ok_def list_all_iff piece_ok_def same_piece_def)
  then show ?thesis
    by (simp add: write_absent)
qed

lemma player_write_mover:
  assumes ok: "player_ok c pl" and mem: "q0 \<in> set (pieces pl)" and same: "same_piece q0 p"
    and q0: "\<not> is_home q0" and p: "piece_ok c p"
  shows "player_ok c
           (pl\<lparr>pieces := map (\<lambda>q. if same_piece q p then p else q) (pieces pl),
               home_count := home_count pl + (if is_home p then 1 else 0)\<rparr>)"
proof -
  let ?ps = "map (\<lambda>q. if same_piece q p then p else q) (pieces pl)"
  have ids: "map piece_id ?ps = [0, 1, 2, 3]"
    using ok by (simp only: write_ids player_ok_def)
  have all: "list_all (piece_ok c) ?ps"
    using ok p by (auto simp: player_ok_def list_all_iff)
  have "distinct (map piece_id (pieces pl))"
    using ok by (simp add: player_ok_def)
  then have "length (filter is_home ?ps)
         = length (filter is_home (pieces pl)) + (if is_home p then 1 else 0)"
    using mem same q0 by (rule write_count)
  then have "home_count pl + (if is_home p then 1 else 0) = int (length (filter is_home ?ps))"
    using ok by (simp add: player_ok_def)
  then show ?thesis
    using ok ids all by (simp add: player_ok_def)
qed

lemma player_write_reset:
  assumes ok: "player_ok c pl" and mem: "cp \<in> set (pieces pl)" and cp: "\<not> is_home cp"
  shows "player_ok c
           (pl\<lparr>pieces := map (\<lambda>q. if same_piece q (piece_reset cp) then piece_reset cp else q)
                            (pieces pl)\<rparr>)"
proof -
  have same: "same_piece cp (piece_reset cp)"
    by (simp add: same_piece_def piece_reset_def)
  have "piece_ok c cp"
    using ok mem by (simp add: player_ok_def list_all_iff)
  then have r: "piece_ok c (piece_reset cp)"
    by (rule piece_ok_reset)
  have "\<not> is_home (piece_reset cp)"
    by (simp add: piece_reset_def)
  then show ?thesis
    using player_write_mover [OF ok mem same cp r] by simp
qed

subsection \<open>Writing pieces of a game\<close>

lemma store_piece_frame [simp]:
  "current_player (store_piece g p) = current_player g"
  "game_state (store_piece g p) = game_state g"
  "dice_value (store_piece g p) = dice_value g"
  by (simp_all add: store_piece_def)

lemma modify_player_frame [simp]:
  "current_player (modify_player g c f) = current_player g"
  "game_state (modify_player g c f) = game_state g"
  "dice_value (modify_player g c f) = dice_value g"
  by (simp_all add: modify_player_def)

lemma store_twice:
  assumes "same_piece a b"
  shows "store_piece (store_piece g a) b = store_piece g b"
proof -
  have "(if same_piece (if same_piece q a then a else q) b then b
         else (if same_piece q a then a else q)) = (if same_piece q b then b else q)" for q
    using assms by (auto simp: same_piece_def)
  then show ?thesis
    by (simp add: store_piece_def comp_def case_prod_beta)
qed

lemma store_swap:
  assumes "\<not> same_piece a b"
  shows "store_piece (store_piece g a) b = store_piece (store_piece g b) a"
proof -
  have "(if same_piece (if same_piece q a then a else q) b then b
         else (if same_piece q a then a else q))
      = (if same_piece (if same_piece q b then b else q) a then a
         else (if same_piece q b then b else q))" for q
    using assms by (auto simp: same_piece_def)
  then show ?thesis
    by (simp add: store_piece_def comp_def case_prod_beta)
qed

lemma store_modify:
  "store_piece (modify_player g c (\<lambda>pl. pl\<lparr>home_count := home_count pl + 1\<rparr>)) p
     = modify_player (store_piece g p) c (\<lambda>pl. pl\<lparr>home_count := home_count pl + 1\<rparr>)"
  by (simp add: store_piece_def modify_player_def comp_def case_prod_beta if_distrib)

lemma all_pieces_store:
  "all_pieces (store_piece g p) = map (\<lambda>q. if same_piece q p then p else q) (all_pieces g)"
  by (simp add: all_pieces_def store_piece_def map_concat comp_def case_prod_beta)

lemma all_pieces_modify:
  "all_pieces (modify_player g c (\<lambda>pl. pl\<lparr>home_count := home_count pl + 1\<rparr>)) = all_pieces g"
proof -
  have "concat (map (\<lambda>(c, player). pieces player)
          (map (\<lambda>(k, pl). if k = c then (k, pl\<lparr>home_count := home_count pl + 1\<rparr>)
                           else (k, pl)) ps))
        = concat (map (\<lambda>(c, player). pieces player) ps)"
    for ps :: "(PlayerColor \<times> Player) list"
    by (induction ps) auto
  then show ?thesis
    by (simp add: all_pieces_def modify_player_def)
qed

lemma map_of_values:
  "map_of (map (\<lambda>(c, pl). (c, f c pl)) ps) k = map_option (f k) (map_of ps k)"
  by (induction ps) auto

lemma lookup_store:
  "map_of (players (store_piece g p)) k
     = map_option (\<lambda>pl. pl\<lparr>pieces := map (\<lambda>q. if same_piece q p then p else q) (pieces pl)\<rparr>)
         (map_of (players g) k)"
  unfolding store_piece_def by (simp add: map_of_values)

lemma lookup_modify:
  "map_of (players (modify_player g c f)) k
     = map_option (if k = c then f else (\<lambda>pl. pl)) (map_of (players g) k)"
proof -
  have "players (modify_player g c f)
      = map (\<lambda>(k, pl). (k, (if k = c then f else (\<lambda>pl. pl)) pl)) (players g)"
    by (simp add: modify_player_def case_prod_beta)
  then show ?thesis
    by (simp only: map_of_values)
qed

subsection \<open>The invariant under writes\<close>

lemma store_piece_keys: "map fst (players (store_piece g p)) = map fst (players g)"
  unfolding store_piece_def by (auto simp: case_prod_beta)

lemma modify_player_keys: "map fst (players (modify_player g c f)) = map fst (players g)"
proof -
  have "players (modify_player g c f)
      = map (\<lambda>(k, pl). (k, (if k = c then f else (\<lambda>pl. pl)) pl)) (players g)"
    by (simp add: modify_player_def case_prod_beta)
  then show ?thesis
    by (simp only: map_values_keys)
qed

lemma write_moved_frame [simp]:
  "current_player (write_moved g pc p) = current_player g"
  "game_state (write_moved g pc p) = game_state g"
  "dice_value (write_moved g pc p) = dice_value g"
  by (simp_all add: write_moved_def)

lemma write_moved_keys: "map fst (players (write_moved g pc p)) = map fst (players g)"
  by (simp add: write_moved_def store_piece_keys modify_player_keys)

lemma lookup_write_moved:
  "map_of (players (write_moved g pc p)) k
     = map_option
         (\<lambda>pl. pl\<lparr>pieces := map (\<lambda>q. if same_piece q p then p else q) (pieces pl),
                   home_count := home_count pl + (if k = pc \<and> is_home p then 1 else 0)\<rparr>)
         (map_of (players g) k)"
  by (cases "map_of (players g) k")
    (simp_all add: write_moved_def lookup_modify lookup_store)

lemma all_pieces_write_moved:
  "all_pieces (write_moved g pc p) = map (\<lambda>q. if same_piece q p then p else q) (all_pieces g)"
  by (simp add: write_moved_def all_pieces_modify all_pieces_store)

lemma all_players_lookup:
  assumes "distinct (map fst ps)"
  shows "list_all (\<lambda>(c, pl). P c pl) ps \<longleftrightarrow> (\<forall>c pl. map_of ps c = Some pl \<longrightarrow> P c pl)"
  using assms by (auto simp: list_all_iff)

lemma game_ok_lookup:
  "game_ok g \<longleftrightarrow>
     distinct (map fst (players g))
     \<and> (\<forall>c pl. map_of (players g) c = Some pl \<longrightarrow> player_ok c pl)
     \<and> (game_state g = MOVING_PIECE \<longrightarrow> 1 \<le> dice_value g \<and> dice_value g \<le> 6)"
  unfolding game_ok_def using all_players_lookup [of "players g" player_ok] by blast

lemma game_ok_player:
  "game_ok g \<Longrightarrow> map_of (players g) c = Some pl \<Longrightarrow> player_ok c pl"
  by (simp add: game_ok_lookup)

lemma game_ok_write_moved:
  assumes ok: "game_ok g" and look: "map_of (players g) pc = Some player"
    and mem: "q0 \<in> set (pieces player)" and same: "same_piece q0 p"
    and q0: "\<not> is_home q0" and p: "piece_ok pc p"
  shows "game_ok (write_moved g pc p)"
  unfolding game_ok_lookup
proof (intro conjI allI impI)
  show "distinct (map fst (players (write_moved g pc p)))"
    using ok by (simp add: write_moved_keys game_ok_def)
  show "1 \<le> dice_value (write_moved g pc p)" "dice_value (write_moved g pc p) \<le> 6"
    if "game_state (write_moved g pc p) = MOVING_PIECE"
    using ok that by (simp_all add: game_ok_def)
next
  fix c pl'
  assume "map_of (players (write_moved g pc p)) c = Some pl'"
  then obtain pl where pl: "map_of (players g) c = Some pl"
    and pl': "pl' = pl\<lparr>pieces := map (\<lambda>q. if same_piece q p then p else q) (pieces pl),
                   home_count := home_count pl + (if c = pc \<and> is_home p then 1 else 0)\<rparr>"
    by (auto simp: lookup_write_moved)
  have okpl: "player_ok c pl"
    using ok pl by (rule game_ok_player)
  show "player_ok c pl'"
  proof (cases "c = pc")
    case True
    then have "pl = player"
      using pl look by simp
    then show ?thesis
      using player_write_mover [OF okpl _ same q0] mem p True pl' by simp
  next
    case False
    then have "player_color p \<noteq> c"
      using p by (auto simp: piece_ok_def)
    then have "pl\<lparr>pieces := map (\<lambda>q. if same_piece q p then p else q) (pieces pl)\<rparr> = pl"
      using okpl by (intro player_write_other)
    then have "pl' = pl"
      using pl' False by simp
    then show ?thesis
      using okpl by simp
  qed
qed

lemma all_pieces_member:
  "cp \<in> set (all_pieces g) \<longleftrightarrow> (\<exists>c pl. (c, pl) \<in> set (players g) \<and> cp \<in> set (pieces pl))"
  by (auto simp: all_pieces_def)

lemma game_ok_piece_owner:
  assumes ok: "game_ok g" and mem: "cp \<in> set (all_pieces g)"
  shows "\<exists>pl. map_of (players g) (player_color cp) = Some pl \<and> cp \<in> set (pieces pl)"
proof -
  obtain c pl where cpl: "(c, pl) \<in> set (players g)" and cp: "cp \<in> set (pieces pl)"
    using mem by (auto simp: all_pieces_member)
  have look: "map_of (players g) c = Some pl"
    using ok cpl by (simp add: game_ok_def)
  then have "player_ok c pl"
    using ok by (intro game_ok_player)
  then have "player_color cp = c"
    using cp by (auto simp: player_ok_def list_all_iff piece_ok_def)
  then show ?thesis
    using look cp by auto
qed

lemma game_ok_write_reset:
  assumes ok: "game_ok g" and mem: "cp \<in> set (all_pieces g)" and cp: "\<not> is_home cp"
  shows "game_ok (store_piece g (piece_reset cp))"
  unfolding game_ok_lookup
proof (intro conjI allI impI)
  show "distinct (map fst (players (store_piece g (piece_reset cp))))"
    using ok by (simp add: store_piece_keys game_ok_def)
  show "1 \<le> dice_value (store_piece g (piece_reset cp))"
    "dice_value (store_piece g (piece_reset cp)) \<le> 6"
    if "game_state (store_piece g (piece_reset cp)) = MOVING_PIECE"
    using ok that by (simp_all add: game_ok_def)
next
  fix c pl'
  assume "map_of (players (store_piece g (piece_reset cp))) c = Some pl'"
  then obtain pl where pl: "map_of (players g) c = Some pl"
    and pl': "pl' = pl\<lparr>pieces := map (\<lambda>q. if same_piece q (piece_reset cp)
                                          then piece_reset cp else q) (pieces pl)\<rparr>"
    by (auto simp: lookup_store)
  have okpl: "player_ok c pl"
    using ok pl by (rule game_ok_player)
  obtain owner where owner: "map_of (players g) (player_color cp) = Some owner"
    and own: "cp \<in> set (pieces owner)"
    using game_ok_piece_owner [OF ok mem] by blast
  show "player_ok c pl'"
  proof (cases "player_color cp = c")
    case True
    then have "owner = pl"
      using owner pl by simp
    then show ?thesis
      using player_write_reset [OF okpl _ cp] own pl' by simp
  next
    case False
    then have "player_color (piece_reset cp) \<noteq> c"
      by (simp add: piece_reset_def)
    then have "pl' = pl"
      using okpl pl' player_write_other by simp
    then show ?thesis
      using okpl by simp
  qed
qed

subsection \<open>The steps of a move\<close>

lemma move_piece_success:
  assumes "move_piece g pc pid = Inr (True, evs, g')"
  shows "current_player g = Some pc \<and> game_state g = MOVING_PIECE
    \<and> (\<exists>player dest.
          map_of (players g) pc = Some player \<and> 0 \<le> pid \<and> pid < 4
          \<and> nat pid < length (pieces player)
          \<and> calculate_new_position g (pieces player ! nat pid) (dice_value g) = Inr dest
          \<and> is_valid_move g (pieces player ! nat pid) dest = Inr True
          \<and> execute_move g pc pid (pieces player ! nat pid) dest = Inr (True, evs, g'))"
proof -
  have turn: "current_player g = Some pc \<and> game_state g = MOVING_PIECE"
    using assms by (auto simp: move_piece_def split: if_split_asm)
  then obtain player where look: "map_of (players g) pc = Some player"
    using assms by (cases "map_of (players g) pc") (simp_all add: move_piece_def lookup_player_def)
  have range: "0 \<le> pid \<and> pid < 4 \<and> nat pid < length (pieces player)"
    using assms turn look
    by (auto simp: move_piece_def lookup_player_def split: if_split_asm)
  let ?piece = "pieces player ! nat pid"
  obtain dest where dest: "calculate_new_position g ?piece (dice_value g) = Inr dest"
    using assms turn look range
    by (cases "calculate_new_position g ?piece (dice_value g)")
      (simp_all add: move_piece_def lookup_player_def Let_def)
  obtain valid where valid: "is_valid_move g ?piece dest = Inr valid"
    using assms turn look range dest
    by (cases "is_valid_move g ?piece dest")
      (simp_all add: move_piece_def lookup_player_def Let_def)
  have "valid \<and> execute_move g pc pid ?piece dest = Inr (True, evs, g')"
    using assms turn look range dest valid
    by (cases valid) (simp_all add: move_piece_def lookup_player_def Let_def)
  then show ?thesis
    using turn look range dest valid by auto
qed

lemma stretch_above_home:
  "dest \<in> set (home_stretch_positions pc) \<Longrightarrow> get_home_position pc \<le> dest"
  by (cases pc) auto

lemma stretch_range:
  "dest \<in> set (home_stretch_positions pc)
     \<longleftrightarrow> get_home_position pc \<le> dest \<and> dest < get_home_position pc + 6"
  by (cases pc) auto

lemma start_on_track: "0 \<le> get_start_position pc \<and> get_start_position pc < 52"
  by (cases pc) simp_all

lemma player_ok_piece:
  "player_ok c pl \<Longrightarrow> q \<in> set (pieces pl) \<Longrightarrow> piece_ok c q"
  by (simp add: player_ok_def list_all_iff)

lemma valid_destination:
  assumes ok: "game_ok g" and moving: "game_state g = MOVING_PIECE"
    and look: "map_of (players g) pc = Some player" and mem: "piece \<in> set (pieces player)"
    and dest: "calculate_new_position g piece (dice_value g) = Inr dest"
    and valid: "is_valid_move g piece dest = Inr True"
  shows "\<not> is_home piece"
    and "(0 \<le> dest \<and> dest < 52) \<or> dest \<in> set (home_stretch_positions pc)"
proof -
  have pl: "player_ok pc player"
    using ok look by (rule game_ok_player)
  then have piece: "piece_ok pc piece"
    using mem by (rule player_ok_piece)
  show home: "\<not> is_home piece"
    using valid by (auto simp: is_valid_move_def split: if_split_asm)
  have dice: "1 \<le> dice_value g \<and> dice_value g \<le> 6"
    using ok moving by (simp add: game_ok_def)
  have look': "lookup_player g (player_color piece) = Inr player"
    using look piece by (simp add: lookup_player_def piece_ok_def)
  show "(0 \<le> dest \<and> dest < 52) \<or> dest \<in> set (home_stretch_positions pc)"
  proof (cases "position piece = - 1")
    case True
    then have "dice_value g = 6"
      using valid home by (simp add: is_valid_move_def)
    then have "dest = get_start_position pc"
      using dest home True look' pl by (simp add: calculate_new_position_def player_ok_def)
    then show ?thesis
      using start_on_track by simp
  next
    case False
    then have pos: "0 \<le> position piece \<and> position piece < 52"
      using piece home by (simp add: piece_ok_def board_size_def)
    have "dest = (if position piece + dice_value g < 52 then position piece + dice_value g
          else if position piece < start_position player
                  \<and> start_position player \<le> position piece + dice_value g
          then (position piece + dice_value g) mod 52
          else home_position player + (position piece + dice_value g) mod 52)"
      using track_destination [OF look' home, of "dice_value g"] pos dice dest by simp
    moreover have "0 \<le> (position piece + dice_value g) mod 52
        \<and> (position piece + dice_value g) mod 52 < 6" if "52 \<le> position piece + dice_value g"
      using wrap_once [of "position piece + dice_value g"] that pos dice by simp
    moreover have "home_position player = get_home_position pc"
      using pl by (simp add: player_ok_def)
    ultimately show ?thesis
      using pos dice by (auto simp: stretch_range)
  qed
qed

lemma moved_piece_ok:
  assumes "piece_ok pc piece" and "\<not> is_home piece"
    and "(0 \<le> dest \<and> dest < 52) \<or> dest \<in> set (home_stretch_positions pc)"
  shows "piece_ok pc (moved_piece pc piece dest)"
  using assms by (auto simp: piece_ok_def moved_piece_def board_size_def)

lemma moved_piece_same [simp]:
  "same_piece piece (moved_piece pc piece dest)"
  "same_piece (moved_piece pc piece dest) q = same_piece piece q"
  "same_piece q (moved_piece pc piece dest) = same_piece q piece"
  "player_color (moved_piece pc piece dest) = player_color piece"
  "piece_id (moved_piece pc piece dest) = piece_id piece"
  by (simp_all add: same_piece_def moved_piece_def)

lemma final_home_after_store:
  assumes ok: "game_ok g" and look: "map_of (players g) pc = Some player"
    and p: "player_color p = pc"
  shows "is_in_final_home (store_piece g p) p
           = Inr (position p \<in> set (home_stretch_positions pc))"
proof -
  have "home_position player = get_home_position pc"
    using game_ok_player [OF ok look] by (simp add: player_ok_def)
  then show ?thesis
    using look p stretch_above_home [of "position p" pc]
    by (auto simp: is_in_final_home_def lookup_player_def lookup_store)
qed

lemma store_write_moved:
  assumes "same_piece a b" and "is_home a = is_home b"
  shows "store_piece (write_moved g pc a) b = write_moved g pc b"
  using assms by (simp add: write_moved_def store_modify store_twice)

lemma check_capture_Some:
  assumes "check_capture g mp pos = Some cp"
  shows "pos \<notin> safe_positions \<and> cp \<in> set (all_pieces g) \<and> position cp = pos
    \<and> \<not> is_home cp \<and> player_color cp \<noteq> player_color mp"
proof -
  have safe: "pos \<notin> safe_positions"
    using assms by (auto simp: check_capture_def split: if_split_asm)
  then have "List.find
          (\<lambda>piece. \<not> same_piece piece mp \<and> position piece = pos
             \<and> \<not> is_home piece \<and> player_color piece \<noteq> player_color mp)
          (all_pieces g) = Some cp"
    using assms by (simp add: check_capture_def all_pieces_def)
  then show ?thesis
    using safe by (auto simp: find_Some_iff)
qed

lemma check_capture_safe: "pos \<in> safe_positions \<Longrightarrow> check_capture g mp pos = None"
  by (simp add: check_capture_def)

lemma execute_move_unfold:
  assumes ok: "game_ok g" and look: "map_of (players g) pc = Some player"
    and mem: "piece \<in> set (pieces player)" and home: "\<not> is_home piece"
  shows "\<exists>cap.
      execute_move g pc pid piece dest =
        (case finish_turn (moved_state g pc piece dest cap) pc of
           Inl e \<Rightarrow> Inl e
         | Inr (ev_end, g5) \<Rightarrow> Inr (True, moved_events g pc pid piece dest cap @ ev_end, g5))
      \<and> (dest \<in> safe_positions \<longrightarrow> cap = None)
      \<and> (\<forall>cp. cap = Some cp \<longrightarrow>
            cp \<in> set (all_pieces g) \<and> \<not> is_home cp \<and> player_color cp \<noteq> pc
            \<and> position cp = dest \<and> dest \<notin> safe_positions)"
proof -
  define reached where "reached \<longleftrightarrow> dest \<in> set (home_stretch_positions pc)"
  define piece1 where "piece1 = piece\<lparr>position := dest\<rparr>"
  define piece2 where "piece2 = (if reached then piece1\<lparr>is_home := True\<rparr> else piece1)"
  define piece3 where "piece3 = moved_piece pc piece dest"
  define g2 where "g2 = write_moved g pc piece2"
  define cap where "cap = check_capture g2 piece2 dest"
  have color: "player_color piece = pc"
    using game_ok_player [OF ok look] mem by (auto dest: player_ok_piece simp: piece_ok_def)
  have c1: "player_color piece1 = pc" and c2: "player_color piece2 = pc"
    and id2: "piece_id piece2 = piece_id piece"
    using color by (simp_all add: piece1_def piece2_def)
  have fin: "is_in_final_home (store_piece g piece1) piece1 = Inr reached"
    using final_home_after_store [OF ok look c1] by (simp add: piece1_def reached_def)
  have same12: "same_piece piece1 piece2"
    by (simp add: same_piece_def piece1_def piece2_def)
  have mark: "mark_home (store_piece g piece1) pc pid piece1 reached
      = (piece2, if reached then [GameEvent PIECE_HOME (HomeData pid pc) (Some pc)] else [], g2)"
  proof (cases reached)
    case True
    have "store_piece (store_piece g piece1) piece2 = store_piece g piece2"
      using same12 by (rule store_twice)
    then show ?thesis
      using True by (simp add: mark_home_def g2_def write_moved_def piece2_def)
  next
    case False
    then show ?thesis
      using home by (simp add: mark_home_def g2_def write_moved_def piece2_def piece1_def)
  qed
  have p3: "piece2\<lparr>is_safe := (dest \<in> safe_positions)\<rparr> = piece3"
    using home by (cases reached) (simp_all add: piece2_def piece1_def piece3_def
        moved_piece_def reached_def)
  have same23: "same_piece piece2 piece3" and home23: "is_home piece2 = is_home piece3"
    using home by (simp_all add: same_piece_def piece2_def piece1_def piece3_def
        moved_piece_def reached_def)
  have w3: "store_piece g2 piece3 = write_moved g pc piece3"
    unfolding g2_def using same23 home23 by (rule store_write_moved)
  have capfacts: "cp \<in> set (all_pieces g) \<and> \<not> is_home cp \<and> player_color cp \<noteq> pc
            \<and> position cp = dest \<and> dest \<notin> safe_positions" if "cap = Some cp" for cp
  proof -
    have f: "dest \<notin> safe_positions \<and> cp \<in> set (all_pieces g2) \<and> position cp = dest
        \<and> \<not> is_home cp \<and> player_color cp \<noteq> pc"
      using check_capture_Some [of g2 piece2 dest cp] that c2 by (simp add: cap_def)
    then obtain q where q: "q \<in> set (all_pieces g)"
      and cp: "cp = (if same_piece q piece2 then piece2 else q)"
      by (auto simp: g2_def all_pieces_write_moved)
    have "cp = q"
      using cp f c2 by (auto split: if_split_asm)
    then show ?thesis
      using q f by simp
  qed
  have g4: "store_piece (snd (resolve_capture g2 pc piece2 dest)) piece3
      = moved_state g pc piece dest cap"
  proof (cases cap)
    case None
    then show ?thesis
      using w3 by (simp add: resolve_capture_def cap_def moved_state_def piece3_def)
  next
    case (Some cp)
    have "\<not> same_piece (piece_reset cp) piece3"
      using capfacts [OF Some] color by (simp add: same_piece_def piece_reset_def piece3_def)
    then have "store_piece (store_piece g2 (piece_reset cp)) piece3
        = store_piece (store_piece g2 piece3) (piece_reset cp)"
      by (rule store_swap)
    then show ?thesis
      using Some w3 by (simp add: resolve_capture_def cap_def [symmetric] moved_state_def piece3_def)
  qed
  have evc: "fst (resolve_capture g2 pc piece2 dest)
      = (case cap of None \<Rightarrow> []
         | Some cp \<Rightarrow> [GameEvent PIECE_CAPTURED
               (CapturedData (player_color cp, piece_id cp) (player_color piece, piece_id piece))
               (Some pc)])"
    using c2 id2 color
    by (cases cap) (simp_all add: resolve_capture_def cap_def [symmetric])
  have dice: "dice_value (moved_state g pc piece dest cap) = dice_value g"
    by (cases cap) (simp_all add: moved_state_def)
  have app: "apply_move (store_piece g piece1) pc pid piece1 (position piece) dest reached
      = (moved_events g pc pid piece dest cap, moved_state g pc piece dest cap)"
  proof -
    obtain ev_capture g3 where rc: "resolve_capture g2 pc piece2 dest = (ev_capture, g3)"
      by (cases "resolve_capture g2 pc piece2 dest")
    have "apply_move (store_piece g piece1) pc pid piece1 (position piece) dest reached
      = ((if reached then [GameEvent PIECE_HOME (HomeData pid pc) (Some pc)] else [])
           @ ev_capture
           @ [GameEvent PIECE_MOVED
                (MovedData pid (position piece) dest (dice_value (store_piece g3 piece3)))
                (Some pc)],
         store_piece g3 piece3)"
      by (simp add: apply_move_def mark rc p3 Let_def)
    moreover have "dice_value (store_piece g3 piece3) = dice_value g"
      using g4 dice rc by simp
    moreover have "store_piece g3 piece3 = moved_state g pc piece dest cap"
      using g4 rc by simp
    moreover have "ev_capture = (case cap of None \<Rightarrow> []
         | Some cp \<Rightarrow> [GameEvent PIECE_CAPTURED
               (CapturedData (player_color cp, piece_id cp) (player_color piece, piece_id piece))
               (Some pc)])"
      using evc rc by simp
    ultimately show ?thesis
      by (simp only: moved_events_def reached_def)
  qed
  have "execute_move g pc pid piece dest =
      (case finish_turn (moved_state g pc piece dest cap) pc of
         Inl e \<Rightarrow> Inl e
       | Inr (ev_end, g5) \<Rightarrow> Inr (True, moved_events g pc pid piece dest cap @ ev_end, g5))"
    using fin app by (simp add: execute_move_def Let_def piece1_def [symmetric])
  moreover have "dest \<in> safe_positions \<longrightarrow> cap = None"
    by (simp add: cap_def check_capture_safe)
  ultimately show ?thesis
    using capfacts by blast
qed

lemma execute_move_closed:
  assumes ok: "game_ok g" and look: "map_of (players g) pc = Some player"
    and mem: "piece \<in> set (pieces player)" and home: "\<not> is_home piece"
    and ex: "execute_move g pc pid piece dest = Inr (b, evs, g')"
  shows "\<exists>cap ev_end.
      b \<and> finish_turn (moved_state g pc piece dest cap) pc = Inr (ev_end, g')
      \<and> evs = moved_events g pc pid piece dest cap @ ev_end
      \<and> (dest \<in> safe_positions \<longrightarrow> cap = None)
      \<and> (\<forall>cp. cap = Some cp \<longrightarrow>
            cp \<in> set (all_pieces g) \<and> \<not> is_home cp \<and> player_color cp \<noteq> pc
            \<and> position cp = dest \<and> dest \<notin> safe_positions)"
proof -
  obtain cap where unfold: "execute_move g pc pid piece dest =
        (case finish_turn (moved_state g pc piece dest cap) pc of
           Inl e \<Rightarrow> Inl e
         | Inr (ev_end, g5) \<Rightarrow> Inr (True, moved_events g pc pid piece dest cap @ ev_end, g5))"
    and safe: "dest \<in> safe_positions \<longrightarrow> cap = None"
    and capfacts: "\<forall>cp. cap = Some cp \<longrightarrow>
            cp \<in> set (all_pieces g) \<and> \<not> is_home cp \<and> player_color cp \<noteq> pc
            \<and> position cp = dest \<and> dest \<notin> safe_positions"
    using execute_move_unfold [OF ok look mem home] by blast
  obtain ev_end where "finish_turn (moved_state g pc piece dest cap) pc = Inr (ev_end, g')"
    and "evs = moved_events g pc pid piece dest cap @ ev_end" and b
    using ex unfold by (auto split: sum.splits)
  then show ?thesis
    using safe capfacts by blast
qed

subsection \<open>The end of a move\<close>

lemma next_turn_result:
  assumes "next_turn g = Inr (evs, g')"
  shows "players g' = players g \<and> dice_value g' = dice_value g
    \<and> \<not> emits EV_GAME_OVER evs
    \<and> (game_state g' = ROLLING_DICE \<or> g' = g)"
proof (cases "current_player g")
  case None
  then show ?thesis
    using assms by (auto simp: next_turn_def emits_def)
next
  case (Some cp)
  then show ?thesis
    using assms
    by (cases "next_turn_loop g cp ((order_index cp + 1) mod 4)")
      (auto simp: next_turn_def emits_def Let_def split: if_split_asm)
qed

lemma finish_turn_result:
  assumes "finish_turn g pc = Inr (evs, g')"
  shows "players g' = players g \<and> dice_value g' = dice_value g
    \<and> (\<exists>player. map_of (players g) pc = Some player
          \<and> (if has_won player
              then evs = [GameEvent EV_GAME_OVER (OverData pc) (Some pc)]
                   \<and> game_state g' = GAME_OVER
              else \<not> emits EV_GAME_OVER evs
                   \<and> (game_state g' = ROLLING_DICE \<or> g' = g)))"
proof -
  obtain player where look: "map_of (players g) pc = Some player"
    using assms by (cases "map_of (players g) pc") (simp_all add: finish_turn_def lookup_player_def)
  show ?thesis
  proof (cases "has_won player")
    case True
    then show ?thesis
      using assms look by (auto simp: finish_turn_def lookup_player_def end_game_def)
  next
    case False
    then have "next_turn g = Inr (evs, g')"
      using assms look by (simp add: finish_turn_def lookup_player_def)
    then show ?thesis
      using next_turn_result [of g evs g'] look False by simp
  qed
qed

lemma game_ok_moved_state:
  assumes ok: "game_ok g" and look: "map_of (players g) pc = Some player"
    and mem: "piece \<in> set (pieces player)" and home: "\<not> is_home piece"
    and dest: "(0 \<le> dest \<and> dest < 52) \<or> dest \<in> set (home_stretch_positions pc)"
    and cap: "\<forall>cp. cap = Some cp \<longrightarrow>
            cp \<in> set (all_pieces g) \<and> \<not> is_home cp \<and> player_color cp \<noteq> pc"
  shows "game_ok (moved_state g pc piece dest cap)"
proof -
  let ?p = "moved_piece pc piece dest"
  have piece: "piece_ok pc piece"
    using game_ok_player [OF ok look] mem by (rule player_ok_piece)
  then have "piece_ok pc ?p"
    using home dest by (rule moved_piece_ok)
  then have w: "game_ok (write_moved g pc ?p)"
    using game_ok_write_moved [OF ok look mem _ home, of ?p] by simp
  show ?thesis
  proof (cases cap)
    case None
    then show ?thesis
      using w by (simp add: moved_state_def)
  next
    case (Some cp)
    then have f: "cp \<in> set (all_pieces g)" "\<not> is_home cp" "player_color cp \<noteq> pc"
      using cap by simp_all
    have "\<not> same_piece cp ?p"
      using f(3) piece by (simp add: same_piece_def piece_ok_def)
    then have "cp = (if same_piece cp ?p then ?p else cp)"
      by simp
    with f(1) have "cp \<in> (\<lambda>q. if same_piece q ?p then ?p else q) ` set (all_pieces g)"
      by (rule rev_image_eqI)
    then have "cp \<in> set (all_pieces (write_moved g pc ?p))"
      by (simp add: all_pieces_write_moved)
    then show ?thesis
      using Some game_ok_write_reset [OF w _ f(2)] by (simp add: moved_state_def)
  qed
qed

lemma nth_piece_member:
  "0 \<le> pid \<Longrightarrow> nat pid < length (pieces player) \<Longrightarrow> pieces player ! nat pid \<in> set (pieces player)"
  by simp

lemma game_ok_move_piece:
  assumes ok: "game_ok g" and mv: "move_piece g pc pid = Inr (b, evs, g')"
  shows "game_ok g'"
proof (cases b)
  case False
  then show ?thesis
    using ok mv
    by (auto simp: move_piece_def Let_def split: if_split_asm sum.split_asm
        dest: execute_move_True)
next
  case True
  then obtain player dest where turn: "game_state g = MOVING_PIECE"
    and look: "map_of (players g) pc = Some player"
    and range: "0 \<le> pid" "nat pid < length (pieces player)"
    and calc: "calculate_new_position g (pieces player ! nat pid) (dice_value g) = Inr dest"
    and valid: "is_valid_move g (pieces player ! nat pid) dest = Inr True"
    and ex: "execute_move g pc pid (pieces player ! nat pid) dest = Inr (True, evs, g')"
    using move_piece_success [of g pc pid evs g'] mv by auto
  let ?piece = "pieces player ! nat pid"
  have mem: "?piece \<in> set (pieces player)"
    using range by simp
  note vd = valid_destination [OF ok turn look mem calc valid]
  obtain cap ev_end where fin: "finish_turn (moved_state g pc ?piece dest cap) pc = Inr (ev_end, g')"
    and cap: "\<forall>cp. cap = Some cp \<longrightarrow>
            cp \<in> set (all_pieces g) \<and> \<not> is_home cp \<and> player_color cp \<noteq> pc
            \<and> position cp = dest \<and> dest \<notin> safe_positions"
    using execute_move_closed [OF ok look mem vd(1) ex] by blast
  have ms: "game_ok (moved_state g pc ?piece dest cap)"
    using cap by (intro game_ok_moved_state [OF ok look mem vd]) blast
  have "players g' = players (moved_state g pc ?piece dest cap)"
    and "dice_value g' = dice_value (moved_state g pc ?piece dest cap)"
    and "game_state g' = GAME_OVER \<or> game_state g' = ROLLING_DICE
         \<or> g' = moved_state g pc ?piece dest cap"
    using finish_turn_result [OF fin] by (auto split: if_split_asm)
  then show ?thesis
    using ms by (auto simp: game_ok_def)
qed

lemma game_ok_step:
  assumes "game_ok g" and "op_ok x"
  shows "game_ok (snd (snd (step g x)))"
proof (cases x)
  case (AddPlayer c)
  then show ?thesis
    using game_ok_add_player [OF assms(1), of c] by (cases "add_player g c") simp
next
  case (RemovePlayer c)
  then show ?thesis
    using game_ok_remove_player [OF assms(1), of c] by (cases "remove_player g c") simp
next
  case (RollDice d)
  then show ?thesis
    using game_ok_roll_dice [OF assms(1), of d] assms(2) by (cases "roll_dice g d") simp
next
  case (GetValidMoves c)
  then show ?thesis
    using assms(1) by (cases "get_valid_moves g c") simp_all
next
  case (MovePiece c i)
  then show ?thesis
    using assms(1) game_ok_move_piece [OF assms(1), of c i]
    by (cases "move_piece g c i") auto
next
  case ResetGame
  then show ?thesis
    using game_ok_reset [OF assms(1)] by (cases "reset_game g") simp
qed (use assms in simp_all)

lemma game_ok_run:
  assumes "game_ok g" and "list_all op_ok ops"
  shows "game_ok (run g ops)"
  using assms by (induction ops arbitrary: g) (simp_all add: game_ok_step)

lemma game_ok_reachable: "list_all op_ok ops \<Longrightarrow> game_ok (run LudoGame_init ops)"
  by (rule game_ok_run [OF game_ok_init])

subsection \<open>Positions and finished counts\<close>

lemma at_most_four_players:
  fixes ps :: "(PlayerColor \<times> 'a) list"
  assumes "distinct (map fst ps)"
  shows "length ps \<le> 4"
proof -
  have "set (map fst ps) \<subseteq> {RED, GREEN, YELLOW, BLUE}"
    using all_colors by blast
  then have "card (set (map fst ps)) \<le> card {RED, GREEN, YELLOW, BLUE}"
    by (intro card_mono) simp_all
  then show ?thesis
    using distinct_card [OF assms] by simp
qed

lemma sum_list_bound:
  fixes f :: "'a \<Rightarrow> int"
  assumes "\<forall>x \<in> set xs. f x \<le> 4"
  shows "sum_list (map f xs) \<le> 4 * int (length xs)"
  using assms by (induction xs) auto

lemma player_ok_count: "player_ok c pl \<Longrightarrow> home_count pl \<le> 4"
proof -
  assume ok: "player_ok c pl"
  have "length (filter is_home (pieces pl)) \<le> length (pieces pl)"
    by (rule length_filter_le)
  also have "\<dots> = 4"
    using ok four_ids(1) [of "pieces pl"] by (simp add: player_ok_def)
  finally show ?thesis
    using ok by (simp add: player_ok_def)
qed

lemma game_ok_total: 
  assumes "game_ok g"
  shows "total_home_count g \<le> 16"
proof -
  have "\<forall>x \<in> set (players g). (\<lambda>(c, player). home_count player) x \<le> 4"
    using assms by (auto simp: game_ok_def list_all_iff dest: player_ok_count)
  then have "total_home_count g \<le> 4 * int (length (players g))"
    unfolding total_home_count_def by (rule sum_list_bound)
  moreover have "length (players g) \<le> 4"
    using assms by (intro at_most_four_players) (simp add: game_ok_def)
  ultimately show ?thesis by linarith
qed

lemma game_ok_pieces:
  assumes "game_ok g" and "p \<in> set (all_pieces g)"
  shows "piece_ok (player_color p) p"
proof -
  obtain pl where "map_of (players g) (player_color p) = Some pl" and "p \<in> set (pieces pl)"
    using game_ok_piece_owner [OF assms] by blast
  then show ?thesis
    using game_ok_player [OF assms(1)] player_ok_piece by blast
qed

lemma piece_ok_allowed: "piece_ok c p \<Longrightarrow> position_allowed c (position p)"
  by (auto simp: piece_ok_def position_allowed_def split: if_split_asm)

lemma blue_home_state:
  "run LudoGame_init (blue_rolls_one @ [MovePiece BLUE 0]) =
     \<lparr>players =
        [(RED, (Player_init RED)\<lparr>pieces :=
            (Piece_init RED 0)\<lparr>position := 18\<rparr> # map (Piece_init RED) [1, 2, 3]\<rparr>),
         (GREEN, (Player_init GREEN)\<lparr>pieces :=
            (Piece_init GREEN 0)\<lparr>position := 31\<rparr> # map (Piece_init GREEN) [1, 2, 3]\<rparr>),
         (YELLOW, (Player_init YELLOW)\<lparr>pieces :=
            (Piece_init YELLOW 0)\<lparr>position := 44\<rparr> # map (Piece_init YELLOW) [1, 2, 3]\<rparr>),
         (BLUE, (Player_init BLUE)\<lparr>pieces :=
            (Piece_init BLUE 0)\<lparr>position := 89, is_home := True\<rparr>
              # map (Piece_init BLUE) [1, 2, 3],
            home_count := 1\<rparr>)],
      current_player = Some RED, game_state = ROLLING_DICE, dice_value = 1\<rparr>"
  by (simp add: eval_defs)

text \<open>
  Claim C6. After every sequence of public calls on a new game (with dice values 1 to 6),
  the \<^verbatim>\<open>home_count\<close> of all players sum to at most 16, and the position of every piece
  is the base sentinel, a track cell from 0 to 51, or a cell of the home stretch of the
  piece's colour.
\<close>

theorem reachable_positions_and_counts:
  assumes "list_all op_ok ops"
  shows "total_home_count (run LudoGame_init ops) \<le> 16
    \<and> list_all (\<lambda>piece. position_allowed (player_color piece) (position piece))
         (all_pieces (run LudoGame_init ops))"
proof -
  have ok: "game_ok (run LudoGame_init ops)"
    using assms by (rule game_ok_reachable)
  then show ?thesis
    using game_ok_total [OF ok] game_ok_pieces [OF ok]
    by (auto simp: list_all_iff intro: piece_ok_allowed)
qed

theorem reachable_positions_and_counts_witness:
  "list_all op_ok (blue_rolls_one @ [MovePiece BLUE 0])
   \<and> total_home_count (run LudoGame_init (blue_rolls_one @ [MovePiece BLUE 0])) = 1
   \<and> map position (all_pieces (run LudoGame_init (blue_rolls_one @ [MovePiece BLUE 0])))
       = [18, - 1, - 1, - 1, 31, - 1, - 1, - 1, 44, - 1, - 1, - 1, 89, - 1, - 1, - 1]
   \<and> list_all (\<lambda>piece. position_allowed (player_color piece) (position piece))
         (all_pieces (run LudoGame_init (blue_rolls_one @ [MovePiece BLUE 0])))"
proof -
  have ops: "list_all op_ok (blue_rolls_one @ [MovePiece BLUE 0])"
    by (simp add: blue_rolls_one_def four_players_def all_six_def)
  have "total_home_count (run LudoGame_init (blue_rolls_one @ [MovePiece BLUE 0])) = 1"
    and "map position (all_pieces (run LudoGame_init (blue_rolls_one @ [MovePiece BLUE 0])))
       = [18, - 1, - 1, - 1, 31, - 1, - 1, - 1, 44, - 1, - 1, - 1, 89, - 1, - 1, - 1]"
    by (simp_all add: blue_home_state total_home_count_def all_pieces_def Player_init_def
        Piece_init_def)
  then show ?thesis
    using ops reachable_positions_and_counts [OF ops] by simp
qed

subsection \<open>The players after a move\<close>

lemma lookup_moved_state_mover:
  assumes ok: "game_ok g" and look: "map_of (players g) pc = Some player"
    and color: "player_color piece = pc"
    and cap: "\<forall>cp. cap = Some cp \<longrightarrow> player_color cp \<noteq> pc"
  shows "map_of (players (moved_state g pc piece dest cap)) pc
     = Some (player\<lparr>pieces := map (\<lambda>q. if same_piece q (moved_piece pc piece dest)
                                       then moved_piece pc piece dest else q) (pieces player),
                home_count := home_count player
                   + (if is_home (moved_piece pc piece dest) then 1 else 0)\<rparr>)"
proof (cases cap)
  case None
  then show ?thesis
    using look by (simp add: moved_state_def lookup_write_moved)
next
  case (Some cp)
  let ?p = "moved_piece pc piece dest"
  let ?ps = "map (\<lambda>q. if same_piece q ?p then ?p else q) (pieces player)"
  have wrong: "player_color cp \<noteq> pc"
    using cap Some by simp
  have all: "\<forall>q \<in> set (pieces player). player_color q = pc"
    using game_ok_player [OF ok look] by (auto simp: player_ok_def list_all_iff piece_ok_def)
  have "\<forall>q \<in> set ?ps. \<not> same_piece q (piece_reset cp)"
  proof
    fix q
    assume "q \<in> set ?ps"
    then obtain x where x: "x \<in> set (pieces player)"
      and q: "q = (if same_piece x ?p then ?p else x)"
      by auto
    have "player_color q = pc"
      using x q all color by (cases "same_piece x ?p") simp_all
    then show "\<not> same_piece q (piece_reset cp)"
      using wrong by (simp add: same_piece_def piece_reset_def)
  qed
  then have "map (\<lambda>q. if same_piece q (piece_reset cp) then piece_reset cp else q) ?ps = ?ps"
    by (rule write_absent)
  then show ?thesis
    using Some look by (simp add: moved_state_def lookup_store lookup_write_moved)
qed

lemma lookup_moved_state_other:
  assumes ok: "game_ok g" and color: "player_color piece = pc" and other: "c \<noteq> pc"
  shows "map_of (players (moved_state g pc piece dest None)) c = map_of (players g) c"
proof (cases "map_of (players g) c")
  case None
  then show ?thesis
    by (simp add: moved_state_def lookup_write_moved)
next
  case (Some pl)
  have "player_color (moved_piece pc piece dest) \<noteq> c"
    using color other by simp
  then have "pl\<lparr>pieces := map (\<lambda>q. if same_piece q (moved_piece pc piece dest)
                                 then moved_piece pc piece dest else q) (pieces pl)\<rparr> = pl"
    using game_ok_player [OF ok Some] by (intro player_write_other)
  then show ?thesis
    using Some other by (simp add: moved_state_def lookup_write_moved)
qed

lemma finish_turn_events:
  assumes "finish_turn g pc = Inr (evs, g')"
  shows "\<forall>e \<in> set evs. event_type e = EV_GAME_OVER \<or> event_type e = PLAYER_TURN_CHANGED"
proof -
  have "\<forall>e \<in> set evs. event_type e = PLAYER_TURN_CHANGED" if "next_turn g = Inr (evs, g')"
  proof (cases "current_player g")
    case None
    then show ?thesis
      using that by (auto simp: next_turn_def)
  next
    case (Some cp)
    then show ?thesis
      using that
      by (cases "next_turn_loop g cp ((order_index cp + 1) mod 4)")
        (auto simp: next_turn_def Let_def split: if_split_asm)
  qed
  then show ?thesis
    using assms
    by (cases "map_of (players g) pc")
      (auto simp: finish_turn_def lookup_player_def end_game_def split: if_split_asm)
qed

lemma moved_events_home:
  "emits PIECE_HOME (moved_events g pc pid piece dest cap)
     \<longleftrightarrow> dest \<in> set (home_stretch_positions pc)"
  by (cases cap) (simp_all add: moved_events_def emits_def)

lemma moved_events_capture:
  "emits PIECE_CAPTURED (moved_events g pc pid piece dest cap) \<longleftrightarrow> cap \<noteq> None"
  by (cases cap) (simp_all add: moved_events_def emits_def)

lemma moved_events_over:
  "\<not> emits EV_GAME_OVER (moved_events g pc pid piece dest cap)"
  by (cases cap) (simp_all add: moved_events_def emits_def)

lemma emits_append: "emits t (xs @ ys) \<longleftrightarrow> emits t xs \<or> emits t ys"
  by (simp add: emits_def)

text \<open>Everything a successful move determines, for a game that satisfies the invariant.\<close>

lemma successful_move:
  assumes ok: "game_ok g" and mv: "move_piece g pc pid = Inr (True, evs, g')"
  shows "\<exists>player dest cap ev_end.
      game_state g = MOVING_PIECE \<and> current_player g = Some pc
      \<and> map_of (players g) pc = Some player \<and> 0 \<le> pid \<and> nat pid < length (pieces player)
      \<and> calculate_new_position g (pieces player ! nat pid) (dice_value g) = Inr dest
      \<and> \<not> is_home (pieces player ! nat pid)
      \<and> player_color (pieces player ! nat pid) = pc
      \<and> ((0 \<le> dest \<and> dest < 52) \<or> dest \<in> set (home_stretch_positions pc))
      \<and> finish_turn (moved_state g pc (pieces player ! nat pid) dest cap) pc = Inr (ev_end, g')
      \<and> evs = moved_events g pc pid (pieces player ! nat pid) dest cap @ ev_end
      \<and> (dest \<in> safe_positions \<longrightarrow> cap = None)
      \<and> (\<forall>cp. cap = Some cp \<longrightarrow>
            cp \<in> set (all_pieces g) \<and> \<not> is_home cp \<and> player_color cp \<noteq> pc
            \<and> position cp = dest \<and> dest \<notin> safe_positions)"
proof -
  obtain player dest where turn: "game_state g = MOVING_PIECE" "current_player g = Some pc"
    and look: "map_of (players g) pc = Some player"
    and range: "0 \<le> pid" "nat pid < length (pieces player)"
    and calc: "calculate_new_position g (pieces player ! nat pid) (dice_value g) = Inr dest"
    and valid: "is_valid_move g (pieces player ! nat pid) dest = Inr True"
    and ex: "execute_move g pc pid (pieces player ! nat pid) dest = Inr (True, evs, g')"
    using move_piece_success [OF mv] by auto
  let ?piece = "pieces player ! nat pid"
  have mem: "?piece \<in> set (pieces player)"
    using range by simp
  note vd = valid_destination [OF ok turn(1) look mem calc valid]
  have "player_color ?piece = pc"
    using game_ok_player [OF ok look] mem by (auto dest: player_ok_piece simp: piece_ok_def)
  then show ?thesis
    using execute_move_closed [OF ok look mem vd(1) ex] turn look range calc vd by blast
qed

subsection \<open>Finished pieces\<close>

lemma written_piece_at:
  assumes "i < length ps" and "same_piece (ps ! i) p"
  shows "map (\<lambda>q. if same_piece q p then p else q) ps ! i = p"
  using assms by simp

lemma home_pieces_in_stretch:
  assumes "game_ok g"
  shows "list_all (\<lambda>piece. is_home piece
            \<longrightarrow> position piece \<in> set (home_stretch_positions (player_color piece)))
           (all_pieces g)"
  using game_ok_pieces [OF assms] by (auto simp: list_all_iff piece_ok_def)

lemma blue_rolled_state:
  "run LudoGame_init blue_rolls_one =
     \<lparr>players =
        [(RED, (Player_init RED)\<lparr>pieces :=
            (Piece_init RED 0)\<lparr>position := 18\<rparr> # map (Piece_init RED) [1, 2, 3]\<rparr>),
         (GREEN, (Player_init GREEN)\<lparr>pieces :=
            (Piece_init GREEN 0)\<lparr>position := 31\<rparr> # map (Piece_init GREEN) [1, 2, 3]\<rparr>),
         (YELLOW, (Player_init YELLOW)\<lparr>pieces :=
            (Piece_init YELLOW 0)\<lparr>position := 44\<rparr> # map (Piece_init YELLOW) [1, 2, 3]\<rparr>),
         (BLUE, (Player_init BLUE)\<lparr>pieces :=
            (Piece_init BLUE 0)\<lparr>position := 51\<rparr> # map (Piece_init BLUE) [1, 2, 3]\<rparr>)],
      current_player = Some BLUE, game_state = MOVING_PIECE, dice_value = 1\<rparr>"
  by (simp add: eval_defs)

lemma blue_home_move:
  "move_piece (run LudoGame_init blue_rolls_one) BLUE 0
     = Inr (True,
            [GameEvent PIECE_HOME (HomeData 0 BLUE) (Some BLUE),
             GameEvent PIECE_MOVED (MovedData 0 51 89 1) (Some BLUE),
             GameEvent PLAYER_TURN_CHANGED (TurnData RED) (Some RED)],
            run LudoGame_init (blue_rolls_one @ [MovePiece BLUE 0]))"
  unfolding blue_home_state unfolding blue_rolled_state
  by (simp add: eval_defs)

lemma move_marks_home:
  assumes "list_all op_ok ops"
    and "move_piece (run LudoGame_init ops) pc pid = Inr (True, evs, g')"
  shows "\<exists>player player' dest.
       map_of (players (run LudoGame_init ops)) pc = Some player
       \<and> map_of (players g') pc = Some player'
       \<and> calculate_new_position (run LudoGame_init ops) (pieces player ! nat pid)
            (dice_value (run LudoGame_init ops)) = Inr dest
       \<and> \<not> is_home (pieces player ! nat pid)
       \<and> position (pieces player' ! nat pid) = dest
       \<and> (is_home (pieces player' ! nat pid) \<longleftrightarrow> dest \<in> set (home_stretch_positions pc))
       \<and> home_count player'
           = home_count player + (if dest \<in> set (home_stretch_positions pc) then 1 else 0)
       \<and> (emits PIECE_HOME evs \<longleftrightarrow> dest \<in> set (home_stretch_positions pc))"
proof -
  let ?g = "run LudoGame_init ops"
  have ok: "game_ok ?g"
    using assms(1) by (rule game_ok_reachable)
  obtain player dest cap ev_end where look: "map_of (players ?g) pc = Some player"
    and range: "0 \<le> pid" "nat pid < length (pieces player)"
    and calc: "calculate_new_position ?g (pieces player ! nat pid) (dice_value ?g) = Inr dest"
    and home: "\<not> is_home (pieces player ! nat pid)"
    and color: "player_color (pieces player ! nat pid) = pc"
    and fin: "finish_turn (moved_state ?g pc (pieces player ! nat pid) dest cap) pc
                = Inr (ev_end, g')"
    and evs: "evs = moved_events ?g pc pid (pieces player ! nat pid) dest cap @ ev_end"
    and cap: "\<forall>cp. cap = Some cp \<longrightarrow>
            cp \<in> set (all_pieces ?g) \<and> \<not> is_home cp \<and> player_color cp \<noteq> pc
            \<and> position cp = dest \<and> dest \<notin> safe_positions"
    using successful_move [OF ok assms(2)] by blast
  let ?piece = "pieces player ! nat pid"
  let ?p = "moved_piece pc ?piece dest"
  define player' where
    "player' = player\<lparr>pieces := map (\<lambda>q. if same_piece q ?p then ?p else q) (pieces player),
                home_count := home_count player + (if is_home ?p then 1 else 0)\<rparr>"
  have "map_of (players (moved_state ?g pc ?piece dest cap)) pc = Some player'"
    unfolding player'_def using cap by (intro lookup_moved_state_mover [OF ok look color]) blast
  then have look': "map_of (players g') pc = Some player'"
    using finish_turn_result [OF fin] by simp
  have at: "pieces player' ! nat pid = ?p"
    using range(2) by (simp add: player'_def same_piece_def)
  have fields: "position ?p = dest"
    "is_home ?p \<longleftrightarrow> dest \<in> set (home_stretch_positions pc)"
    using home by (simp_all add: moved_piece_def)
  have pos: "position (pieces player' ! nat pid) = dest"
    and ih: "is_home (pieces player' ! nat pid) \<longleftrightarrow> dest \<in> set (home_stretch_positions pc)"
    using fields by (simp_all only: at)
  have hc: "home_count player'
      = home_count player + (if dest \<in> set (home_stretch_positions pc) then 1 else 0)"
    using fields(2) by (simp add: player'_def)
  have "\<not> emits PIECE_HOME ev_end"
    using finish_turn_events [OF fin] by (auto simp: emits_def list_ex_iff)
  then have ev: "emits PIECE_HOME evs \<longleftrightarrow> dest \<in> set (home_stretch_positions pc)"
    by (simp add: evs emits_append moved_events_home)
  show ?thesis
    using look look' calc home pos ih hc ev by blast
qed

lemma after_home_state:
  "run LudoGame_init (blue_rolls_one @ [MovePiece BLUE 0, RemovePlayer GREEN]) =
     \<lparr>players =
        [(RED, (Player_init RED)\<lparr>pieces :=
            (Piece_init RED 0)\<lparr>position := 18\<rparr> # map (Piece_init RED) [1, 2, 3]\<rparr>),
         (YELLOW, (Player_init YELLOW)\<lparr>pieces :=
            (Piece_init YELLOW 0)\<lparr>position := 44\<rparr> # map (Piece_init YELLOW) [1, 2, 3]\<rparr>),
         (BLUE, (Player_init BLUE)\<lparr>pieces :=
            (Piece_init BLUE 0)\<lparr>position := 89, is_home := True\<rparr>
              # map (Piece_init BLUE) [1, 2, 3],
            home_count := 1\<rparr>)],
      current_player = Some RED, game_state = ROLLING_DICE, dice_value = 1\<rparr>"
proof -
  have "run LudoGame_init (blue_rolls_one @ [MovePiece BLUE 0, RemovePlayer GREEN])
      = run (run LudoGame_init (blue_rolls_one @ [MovePiece BLUE 0])) [RemovePlayer GREEN]"
    using run_append [of LudoGame_init "blue_rolls_one @ [MovePiece BLUE 0]" "[RemovePlayer GREEN]"]
    by simp
  then show ?thesis
    unfolding blue_home_state by (simp add: remove_player_def)
qed

text \<open>
  Claim C2, as amended. In every game reached through the public calls, every finished
  piece stands in the home stretch of its colour. A successful move in such a game puts
  the moved piece on the computed destination and marks it finished, increments the
  \<^verbatim>\<open>home_count\<close> of its player and emits \<^verbatim>\<open>PIECE_HOME\<close> if and only if the destination
  is one of the six cells of the home stretch of the colour.
\<close>

theorem finished_iff_home_stretch:
  assumes "list_all op_ok ops"
  shows "list_all (\<lambda>piece. is_home piece
            \<longrightarrow> position piece \<in> set (home_stretch_positions (player_color piece)))
         (all_pieces (run LudoGame_init ops))
    \<and> (\<forall>pc pid evs g'.
          move_piece (run LudoGame_init ops) pc pid = Inr (True, evs, g') \<longrightarrow>
          (\<exists>player player' dest.
             map_of (players (run LudoGame_init ops)) pc = Some player
             \<and> map_of (players g') pc = Some player'
             \<and> calculate_new_position (run LudoGame_init ops) (pieces player ! nat pid)
                  (dice_value (run LudoGame_init ops)) = Inr dest
             \<and> \<not> is_home (pieces player ! nat pid)
             \<and> position (pieces player' ! nat pid) = dest
             \<and> (is_home (pieces player' ! nat pid) \<longleftrightarrow> dest \<in> set (home_stretch_positions pc))
             \<and> home_count player'
                 = home_count player + (if dest \<in> set (home_stretch_positions pc) then 1 else 0)
             \<and> (emits PIECE_HOME evs \<longleftrightarrow> dest \<in> set (home_stretch_positions pc)))
          \<and> list_all (\<lambda>piece. is_home piece
                \<longrightarrow> position piece \<in> set (home_stretch_positions (player_color piece)))
               (all_pieces g'))"
proof (intro conjI allI impI)
  have ok: "game_ok (run LudoGame_init ops)"
    using assms by (rule game_ok_reachable)
  then show "list_all (\<lambda>piece. is_home piece
            \<longrightarrow> position piece \<in> set (home_stretch_positions (player_color piece)))
         (all_pieces (run LudoGame_init ops))"
    by (rule home_pieces_in_stretch)
  fix pc pid evs g'
  assume mv: "move_piece (run LudoGame_init ops) pc pid = Inr (True, evs, g')"
  show "\<exists>player player' dest.
             map_of (players (run LudoGame_init ops)) pc = Some player
             \<and> map_of (players g') pc = Some player'
             \<and> calculate_new_position (run LudoGame_init ops) (pieces player ! nat pid)
                  (dice_value (run LudoGame_init ops)) = Inr dest
             \<and> \<not> is_home (pieces player ! nat pid)
             \<and> position (pieces player' ! nat pid) = dest
             \<and> (is_home (pieces player' ! nat pid) \<longleftrightarrow> dest \<in> set (home_stretch_positions pc))
             \<and> home_count player'
                 = home_count player + (if dest \<in> set (home_stretch_positions pc) then 1 else 0)
             \<and> (emits PIECE_HOME evs \<longleftrightarrow> dest \<in> set (home_stretch_positions pc))"
    using assms mv by (rule move_marks_home)
  have "game_ok g'"
    using ok mv by (rule game_ok_move_piece)
  then show "list_all (\<lambda>piece. is_home piece
                \<longrightarrow> position piece \<in> set (home_stretch_positions (player_color piece)))
               (all_pieces g')"
    by (rule home_pieces_in_stretch)
qed

theorem finished_iff_home_stretch_witness:
  "list_all op_ok blue_rolls_one
   \<and> move_piece (run LudoGame_init blue_rolls_one) BLUE 0
     = Inr (True,
            [GameEvent PIECE_HOME (HomeData 0 BLUE) (Some BLUE),
             GameEvent PIECE_MOVED (MovedData 0 51 89 1) (Some BLUE),
             GameEvent PLAYER_TURN_CHANGED (TurnData RED) (Some RED)],
            run LudoGame_init (blue_rolls_one @ [MovePiece BLUE 0]))
   \<and> list_all (\<lambda>piece. is_home piece
            \<longrightarrow> position piece \<in> set (home_stretch_positions (player_color piece)))
         (all_pieces (run LudoGame_init (blue_rolls_one @ [MovePiece BLUE 0])))
   \<and> list_all op_ok (blue_rolls_one @ [MovePiece BLUE 0, RemovePlayer GREEN])
   \<and> map (\<lambda>piece. (position piece, is_home piece))
        (all_pieces (run LudoGame_init (blue_rolls_one @ [MovePiece BLUE 0, RemovePlayer GREEN])))
       = [(18, False), (- 1, False), (- 1, False), (- 1, False),
          (44, False), (- 1, False), (- 1, False), (- 1, False),
          (89, True), (- 1, False), (- 1, False), (- 1, False)]
   \<and> list_all (\<lambda>piece. is_home piece
            \<longrightarrow> position piece \<in> set (home_stretch_positions (player_color piece)))
         (all_pieces (run LudoGame_init (blue_rolls_one @ [MovePiece BLUE 0, RemovePlayer GREEN])))"
proof -
  have ops: "list_all op_ok blue_rolls_one"
    by (simp add: blue_rolls_one_def four_players_def all_six_def)
  have ops2: "list_all op_ok (blue_rolls_one @ [MovePiece BLUE 0, RemovePlayer GREEN])"
    using ops by simp
  have pieces: "map (\<lambda>piece. (position piece, is_home piece))
        (all_pieces (run LudoGame_init (blue_rolls_one @ [MovePiece BLUE 0, RemovePlayer GREEN])))
       = [(18, False), (- 1, False), (- 1, False), (- 1, False),
          (44, False), (- 1, False), (- 1, False), (- 1, False),
          (89, True), (- 1, False), (- 1, False), (- 1, False)]"
    by (simp add: after_home_state all_pieces_def Player_init_def Piece_init_def)
  show ?thesis
    using ops ops2 pieces blue_home_move finished_iff_home_stretch [OF ops]
      finished_iff_home_stretch [OF ops2]
    by blast
qed

text \<open>
  Claim C2 as stated fails: BLUE's piece 0 moves from 51 to 89, the first cell of BLUE's
  home stretch, and is marked finished and counted there, while BLUE's terminal cell is 94.
\<close>

theorem finished_off_terminal_cell:
  "result_of (step (run LudoGame_init blue_rolls_one) (MovePiece BLUE 0)) = RBool True
   \<and> emits PIECE_HOME (events_of (step (run LudoGame_init blue_rolls_one) (MovePiece BLUE 0)))
   \<and> map_option (\<lambda>player. map (\<lambda>piece. (position piece, is_home piece)) (pieces player))
        (map_of (players (state_of (step (run LudoGame_init blue_rolls_one) (MovePiece BLUE 0))))
           BLUE)
       = Some [(89, True), (- 1, False), (- 1, False), (- 1, False)]
   \<and> map_option home_count
        (map_of (players (state_of (step (run LudoGame_init blue_rolls_one) (MovePiece BLUE 0))))
           BLUE) = Some 1
   \<and> terminal_home_cell BLUE = 94"
  by (simp add: blue_home_move result_of_def events_of_def state_of_def emits_def
      blue_home_state terminal_home_cell_def Player_init_def Piece_init_def)

subsection \<open>Safe cells\<close>

lemma red_rolled_state:
  "run LudoGame_init red_rolls_one =
     \<lparr>players =
        [(RED, (Player_init RED)\<lparr>pieces :=
            (Piece_init RED 0)\<lparr>position := 12\<rparr> # map (Piece_init RED) [1, 2, 3]\<rparr>),
         (GREEN, (Player_init GREEN)\<lparr>pieces :=
            [(Piece_init GREEN 0)\<lparr>position := 19\<rparr>,
             (Piece_init GREEN 1)\<lparr>position := 13, is_safe := True\<rparr>,
             Piece_init GREEN 2, Piece_init GREEN 3]\<rparr>),
         (YELLOW, (Player_init YELLOW)\<lparr>pieces :=
            (Piece_init YELLOW 0)\<lparr>position := 38\<rparr> # map (Piece_init YELLOW) [1, 2, 3]\<rparr>),
         (BLUE, (Player_init BLUE)\<lparr>pieces :=
            (Piece_init BLUE 0)\<lparr>position := 51\<rparr> # map (Piece_init BLUE) [1, 2, 3]\<rparr>)],
      current_player = Some RED, game_state = MOVING_PIECE, dice_value = 1\<rparr>"
  by (simp add: eval_defs)

lemma red_safe_move:
  "move_piece (run LudoGame_init red_rolls_one) RED 0
     = Inr (True,
            [GameEvent PIECE_MOVED (MovedData 0 12 13 1) (Some RED),
             GameEvent PLAYER_TURN_CHANGED (TurnData GREEN) (Some GREEN)],
            run LudoGame_init (red_rolls_one @ [MovePiece RED 0]))"
  by (simp add: run_append red_rolled_state) (simp add: eval_defs)

text \<open>
  Claim C8. In a game reached through the public calls, a call of \<^verbatim>\<open>move_piece\<close> whose
  computed destination is one of the safe cells 0, 8, 13, 21, 26, 34, 39, 47 emits no
  \<^verbatim>\<open>PIECE_CAPTURED\<close> event and leaves the player objects of all other colours, with all
  their pieces, exactly as they were, whatever stands on that cell.
\<close>

theorem safe_cell_no_capture:
  assumes "list_all op_ok ops"
    and "map_of (players (run LudoGame_init ops)) pc = Some player"
    and "calculate_new_position (run LudoGame_init ops) (pieces player ! nat pid)
           (dice_value (run LudoGame_init ops)) = Inr dest"
    and "dest \<in> safe_positions"
    and "move_piece (run LudoGame_init ops) pc pid = Inr (ok, evs, g')"
  shows "\<not> emits PIECE_CAPTURED evs
    \<and> (\<forall>c. c \<noteq> pc \<longrightarrow> map_of (players g') c = map_of (players (run LudoGame_init ops)) c)"
proof (cases ok)
  case False
  have "g' = run LudoGame_init ops"
    and "evs = [] \<or> evs = [invalid_move_event (run LudoGame_init ops) pc pid]"
    using assms(5) False
    by (auto simp: move_piece_def Let_def invalid_move_event_def
        split: if_split_asm sum.split_asm dest: execute_move_True)
  then show ?thesis
    by (auto simp: emits_def invalid_move_event_def)
next
  case True
  let ?g = "run LudoGame_init ops"
  have inv: "game_ok ?g"
    using assms(1) by (rule game_ok_reachable)
  have mv: "move_piece ?g pc pid = Inr (True, evs, g')"
    using assms(5) True by simp
  obtain player2 dest2 cap ev_end where look: "map_of (players ?g) pc = Some player2"
    and calc: "calculate_new_position ?g (pieces player2 ! nat pid) (dice_value ?g) = Inr dest2"
    and color: "player_color (pieces player2 ! nat pid) = pc"
    and fin: "finish_turn (moved_state ?g pc (pieces player2 ! nat pid) dest2 cap) pc
                = Inr (ev_end, g')"
    and evs: "evs = moved_events ?g pc pid (pieces player2 ! nat pid) dest2 cap @ ev_end"
    and safe: "dest2 \<in> safe_positions \<longrightarrow> cap = None"
    using successful_move [OF inv mv] by blast
  have "player2 = player"
    using look assms(2) by simp
  then have "dest2 = dest"
    using calc assms(3) by simp
  then have none: "cap = None"
    using safe assms(4) by simp
  have "\<not> emits PIECE_CAPTURED ev_end"
    using finish_turn_events [OF fin] by (auto simp: emits_def list_ex_iff)
  then have no_event: "\<not> emits PIECE_CAPTURED evs"
    using none by (simp add: evs emits_append moved_events_capture)
  have "players g' = players (moved_state ?g pc (pieces player2 ! nat pid) dest2 None)"
    using finish_turn_result [OF fin] none by simp
  then have "map_of (players g') c = map_of (players ?g) c" if "c \<noteq> pc" for c
    using lookup_moved_state_other [OF inv color that] by simp
  then show ?thesis
    using no_event by simp
qed

theorem safe_cell_no_capture_witness:
  "list_all op_ok red_rolls_one
   \<and> (13::int) \<in> safe_positions
   \<and> map_option (\<lambda>player. map position (pieces player))
        (map_of (players (run LudoGame_init red_rolls_one)) GREEN) = Some [19, 13, - 1, - 1]
   \<and> move_piece (run LudoGame_init red_rolls_one) RED 0
     = Inr (True,
            [GameEvent PIECE_MOVED (MovedData 0 12 13 1) (Some RED),
             GameEvent PLAYER_TURN_CHANGED (TurnData GREEN) (Some GREEN)],
            run LudoGame_init (red_rolls_one @ [MovePiece RED 0]))
   \<and> map_of (players (run LudoGame_init (red_rolls_one @ [MovePiece RED 0]))) GREEN
       = map_of (players (run LudoGame_init red_rolls_one)) GREEN"
proof -
  let ?g = "run LudoGame_init red_rolls_one"
  let ?player = "(Player_init RED)\<lparr>pieces :=
            (Piece_init RED 0)\<lparr>position := 12\<rparr> # map (Piece_init RED) [1, 2, 3]\<rparr>"
  have ops: "list_all op_ok red_rolls_one"
    by (simp add: red_rolls_one_def four_players_def all_six_def)
  have look: "map_of (players ?g) RED = Some ?player"
    by (simp add: red_rolled_state)
  have calc: "calculate_new_position ?g (pieces ?player ! nat 0) (dice_value ?g) = Inr 13"
    by (simp add: red_rolled_state calculate_new_position_def should_enter_home_stretch_def
        board_size_def Piece_init_def)
  have safe: "(13::int) \<in> safe_positions"
    by (simp add: safe_positions_def)
  have green: "map_option (\<lambda>player. map position (pieces player))
        (map_of (players ?g) GREEN) = Some [19, 13, - 1, - 1]"
    by (simp add: red_rolled_state Piece_init_def)
  show ?thesis
    using ops safe green red_safe_move
      safe_cell_no_capture [OF ops look calc safe red_safe_move]
    by simp
qed

subsection \<open>Reset\<close>

lemma piece_reset_init: "piece_reset p = Piece_init (player_color p) (piece_id p)"
  by (cases p) (simp add: piece_reset_def Piece_init_def)

lemma player_reset_init:
  assumes "player_ok c pl"
  shows "pl\<lparr>pieces := map piece_reset (pieces pl), home_count := 0\<rparr> = Player_init c"
proof -
  have "\<forall>p \<in> set (pieces pl). player_color p = c"
    using assms by (auto simp: player_ok_def list_all_iff piece_ok_def)
  then have "map piece_reset (pieces pl) = map (\<lambda>p. Piece_init c (piece_id p)) (pieces pl)"
    by (simp add: piece_reset_init)
  also have "\<dots> = map (Piece_init c) (map piece_id (pieces pl))"
    by simp
  also have "\<dots> = map (Piece_init c) [0, 1, 2, 3]"
    using assms by (simp only: player_ok_def)
  finally show ?thesis
    using assms by (cases pl) (simp add: player_ok_def Player_init_def)
qed

lemma reset_players:
  assumes "game_ok g"
  shows "map (\<lambda>(c, player). (c, player\<lparr>pieces := map piece_reset (pieces player),
                                         home_count := 0\<rparr>)) (players g)
       = map (\<lambda>c. (c, Player_init c)) (map fst (players g))"
proof -
  have "list_all (\<lambda>(c, pl). player_ok c pl) ps \<Longrightarrow>
      map (\<lambda>(c, player). (c, player\<lparr>pieces := map piece_reset (pieces player),
                                         home_count := 0\<rparr>)) ps
       = map (\<lambda>c. (c, Player_init c)) (map fst ps)" for ps
    by (induction ps) (auto simp: player_reset_init)
  moreover have "list_all (\<lambda>(c, pl). player_ok c pl) (players g)"
    using assms by (simp add: game_ok_def)
  ultimately show ?thesis
    by blast
qed

lemma snapshot_players_all:
  fixes cs :: "PlayerColor list"
  assumes "distinct cs" and "length cs = 4"
  shows "map_of (map (\<lambda>(c, player). (c, player_snapshot player))
           (map (\<lambda>c. (c, Player_init c)) cs))
       = (\<lambda>c. Some (player_snapshot (Player_init c)))"
proof
  fix c
  have "map (\<lambda>(c, player). (c, player_snapshot player)) (map (\<lambda>c. (c, Player_init c)) cs)
      = map (\<lambda>c. (c, player_snapshot (Player_init c))) cs"
    by simp
  moreover have "map_of (map (\<lambda>c. (c, player_snapshot (Player_init c))) cs) c
      = Some (player_snapshot (Player_init c))"
    using four_distinct_colors [OF assms, of c] by (simp add: map_of_map_restrict)
  ultimately show "map_of (map (\<lambda>(c, player). (c, player_snapshot player))
           (map (\<lambda>c. (c, Player_init c)) cs)) c = Some (player_snapshot (Player_init c))"
    by (simp only:)
qed

text \<open>
  Claim C9. For a game reached through the public calls that has four players,
  \<^verbatim>\<open>reset_game\<close> leaves every player as newly created (all pieces at base, not finished,
  not safe, \<^verbatim>\<open>home_count\<close> 0), the dice value 0, the phase \<^verbatim>\<open>ROLLING_DICE\<close> and RED as
  current player: the game is the new game to which the colours were added in the order
  of the dictionary, and its snapshot is the snapshot of a new game to which the four
  colours were added in any order.
\<close>

theorem reset_reproduces_start:
  assumes "list_all op_ok ops" and "length (players (run LudoGame_init ops)) = 4"
    and "distinct cs" and "length cs = 4"
  shows "get_game_state (snd (reset_game (run LudoGame_init ops)))
           = get_game_state (run LudoGame_init (map AddPlayer cs))
    \<and> snd (reset_game (run LudoGame_init ops))
           = \<lparr>players = map (\<lambda>c. (c, Player_init c)) (map fst (players (run LudoGame_init ops))),
              current_player = Some RED, game_state = ROLLING_DICE, dice_value = 0\<rparr>
    \<and> snd (reset_game (run LudoGame_init ops))
           = run LudoGame_init (map AddPlayer (map fst (players (run LudoGame_init ops))))"
proof -
  let ?g = "run LudoGame_init ops"
  define ks where "ks = map fst (players ?g)"
  have ok: "game_ok ?g"
    using assms(1) by (rule game_ok_reachable)
  have ks: "distinct ks" "length ks = 4"
    using ok assms(2) by (simp_all add: ks_def game_ok_def)
  have reset: "snd (reset_game ?g)
      = \<lparr>players = map (\<lambda>c. (c, Player_init c)) ks,
         current_player = Some RED, game_state = ROLLING_DICE, dice_value = 0\<rparr>"
    using ks(2) by (simp add: reset_game_def Let_def reset_players [OF ok] start_game_def
        ks_def [symmetric])
  have fresh: "run LudoGame_init (map AddPlayer ks)
      = \<lparr>players = map (\<lambda>c. (c, Player_init c)) ks,
         current_player = Some RED, game_state = ROLLING_DICE, dice_value = 0\<rparr>"
    using ks by (rule four_added_state)
  have "get_game_state (snd (reset_game ?g)) = get_game_state (run LudoGame_init (map AddPlayer cs))"
    unfolding reset four_added_state [OF assms(3,4)] get_game_state_def
    by (simp only: LudoGame.simps snapshot_players_all [OF ks] snapshot_players_all [OF assms(3,4)])
  then show ?thesis
    using reset fresh by (simp add: ks_def)
qed

theorem reset_reproduces_start_witness:
  "list_all op_ok (blue_rolls_one @ [MovePiece BLUE 0])
   \<and> length (players (run LudoGame_init (blue_rolls_one @ [MovePiece BLUE 0]))) = 4
   \<and> distinct [BLUE, RED, YELLOW, GREEN] \<and> length [BLUE, RED, YELLOW, GREEN] = 4
   \<and> get_game_state (snd (reset_game (run LudoGame_init (blue_rolls_one @ [MovePiece BLUE 0]))))
       = get_game_state (run LudoGame_init (map AddPlayer [BLUE, RED, YELLOW, GREEN]))
   \<and> snd (reset_game (run LudoGame_init (blue_rolls_one @ [MovePiece BLUE 0])))
       = run LudoGame_init four_players"
proof -
  have ops: "list_all op_ok (blue_rolls_one @ [MovePiece BLUE 0])"
    by (simp add: blue_rolls_one_def four_players_def all_six_def)
  have four: "length (players (run LudoGame_init (blue_rolls_one @ [MovePiece BLUE 0]))) = 4"
    and keys: "map fst (players (run LudoGame_init (blue_rolls_one @ [MovePiece BLUE 0])))
      = [RED, GREEN, YELLOW, BLUE]"
    by (simp_all add: blue_home_state)
  have cs: "distinct [BLUE, RED, YELLOW, GREEN]" "length [BLUE, RED, YELLOW, GREEN] = 4"
    by simp_all
  note r = reset_reproduces_start [OF ops four cs]
  have snap: "get_game_state (snd (reset_game (run LudoGame_init (blue_rolls_one @ [MovePiece BLUE 0]))))
       = get_game_state (run LudoGame_init (map AddPlayer [BLUE, RED, YELLOW, GREEN]))"
    using r by blast
  have "snd (reset_game (run LudoGame_init (blue_rolls_one @ [MovePiece BLUE 0])))
       = run LudoGame_init
           (map AddPlayer (map fst (players (run LudoGame_init (blue_rolls_one @ [MovePiece BLUE 0])))))"
    using r by blast
  then have "snd (reset_game (run LudoGame_init (blue_rolls_one @ [MovePiece BLUE 0])))
       = run LudoGame_init four_players"
    by (simp only: keys four_players_def list.map)
  then show ?thesis
    using ops four cs snap by blast
qed

subsection \<open>The end of the game\<close>

lemma game_over_only_by_move:
  assumes "emits EV_GAME_OVER (events_of (step g x))"
  shows "\<exists>c i. x = MovePiece c i"
proof (cases x)
  case (AddPlayer c)
  then show ?thesis
    using assms
    by (auto simp: events_of_def add_player_def start_game_def emits_def Let_def
        split: if_split_asm)
next
  case (RemovePlayer c)
  then show ?thesis
    using assms by (auto simp: events_of_def remove_player_def emits_def split: if_split_asm)
next
  case (RollDice d)
  then show ?thesis
    using assms by (auto simp: events_of_def roll_dice_def emits_def Let_def split: if_split_asm)
next
  case (GetValidMoves c)
  then show ?thesis
    using assms by (cases "get_valid_moves g c") (simp_all add: events_of_def emits_def)
next
  case ResetGame
  then show ?thesis
    using assms
    by (auto simp: events_of_def reset_game_def start_game_def emits_def Let_def
        split: if_split_asm)
qed (use assms in \<open>simp_all add: events_of_def emits_def\<close>)

lemma failed_move_outcome:
  assumes "move_piece g pc pid = Inr (False, evs, g')"
  shows "g' = g \<and> (evs = [] \<or> evs = [invalid_move_event g pc pid])"
  using assms
  by (auto simp: move_piece_def Let_def invalid_move_event_def
      split: if_split_asm sum.split_asm dest: execute_move_True)

lemma winning_move:
  assumes ok: "game_ok g" and mv: "move_piece g pc pid = Inr (b, evs, g')"
    and over: "emits EV_GAME_OVER evs"
  shows "b \<and> game_state g' = GAME_OVER
    \<and> length (filter (\<lambda>e. event_type e = EV_GAME_OVER) evs) = 1
    \<and> (\<exists>player player'.
          map_of (players g) pc = Some player \<and> map_of (players g') pc = Some player'
          \<and> \<not> is_home (pieces player ! nat pid) \<and> is_home (pieces player' ! nat pid)
          \<and> length (filter is_home (pieces player)) = 3
          \<and> length (filter is_home (pieces player')) = 4)"
proof -
  have b: b
  proof (rule ccontr)
    assume "\<not> b"
    then have "evs = [] \<or> evs = [invalid_move_event g pc pid]"
      using failed_move_outcome [of g pc pid evs g'] mv by simp
    then show False
      using over by (auto simp: emits_def invalid_move_event_def)
  qed
  then have mv': "move_piece g pc pid = Inr (True, evs, g')"
    using mv by simp
  obtain player dest cap ev_end where look: "map_of (players g) pc = Some player"
    and range: "0 \<le> pid" "nat pid < length (pieces player)"
    and home: "\<not> is_home (pieces player ! nat pid)"
    and color: "player_color (pieces player ! nat pid) = pc"
    and fin: "finish_turn (moved_state g pc (pieces player ! nat pid) dest cap) pc
                = Inr (ev_end, g')"
    and evs: "evs = moved_events g pc pid (pieces player ! nat pid) dest cap @ ev_end"
    and cap: "\<forall>cp. cap = Some cp \<longrightarrow>
            cp \<in> set (all_pieces g) \<and> \<not> is_home cp \<and> player_color cp \<noteq> pc
            \<and> position cp = dest \<and> dest \<notin> safe_positions"
    using successful_move [OF ok mv'] by blast
  let ?piece = "pieces player ! nat pid"
  let ?p = "moved_piece pc ?piece dest"
  define player' where
    "player' = player\<lparr>pieces := map (\<lambda>q. if same_piece q ?p then ?p else q) (pieces player),
                home_count := home_count player + (if is_home ?p then 1 else 0)\<rparr>"
  have look4: "map_of (players (moved_state g pc ?piece dest cap)) pc = Some player'"
    unfolding player'_def using cap by (intro lookup_moved_state_mover [OF ok look color]) blast
  then have look': "map_of (players g') pc = Some player'"
    using finish_turn_result [OF fin] by simp
  have "emits EV_GAME_OVER ev_end"
    using over by (simp add: evs emits_append moved_events_over)
  then have won: "has_won player'" and last_ev: "ev_end = [GameEvent EV_GAME_OVER (OverData pc) (Some pc)]"
    and state: "game_state g' = GAME_OVER"
    using finish_turn_result [OF fin] look4 by (auto split: if_split_asm)
  have "\<not> emits EV_GAME_OVER (moved_events g pc pid ?piece dest cap)"
    by (rule moved_events_over)
  then have "filter (\<lambda>e. event_type e = EV_GAME_OVER) (moved_events g pc pid ?piece dest cap) = []"
    by (auto simp: emits_def list_ex_iff filter_empty_conv)
  then have one: "length (filter (\<lambda>e. event_type e = EV_GAME_OVER) evs) = 1"
    by (simp add: evs last_ev)
  have mem: "?piece \<in> set (pieces player)"
    using range by simp
  have okpl: "player_ok pc player"
    using ok look by (rule game_ok_player)
  have ids: "distinct (map piece_id (pieces player))" and len: "length (pieces player) = 4"
    using okpl four_ids [of "pieces player"] by (simp_all add: player_ok_def)
  have count: "length (filter is_home (pieces player'))
      = length (filter is_home (pieces player)) + (if is_home ?p then 1 else 0)"
    unfolding player'_def using write_count [OF ids mem _ home, of ?p] by simp
  have "length (filter is_home (pieces player)) < length (pieces player)"
    using mem home by (rule length_filter_less)
  moreover have four: "length (filter is_home (pieces player')) = 4"
    using won by (simp add: has_won_def get_pieces_in_final_home_def)
  ultimately have three: "length (filter is_home (pieces player)) = 3" and fin_p: "is_home ?p"
    using count len by (auto split: if_split_asm)
  have "pieces player' ! nat pid = ?p"
    using range(2) by (simp add: player'_def same_piece_def)
  then have "is_home (pieces player' ! nat pid)"
    using fin_p by (simp only:)
  then show ?thesis
    using b state one look look' home three four by blast
qed

lemma out_of_play_step:
  assumes "\<not> in_play (game_state g)"
    and "\<not> emits GAME_STARTED (events_of (step g y))"
  shows "\<not> in_play (game_state (state_of (step g y)))
    \<and> silent y (result_of (step g y), events_of (step g y))"
proof (cases y)
  case (AddPlayer c)
  then show ?thesis
    using assms
    by (auto simp: state_of_def result_of_def events_of_def add_player_def start_game_def
        emits_def Let_def split: if_split_asm)
next
  case (RemovePlayer c)
  then show ?thesis
    using assms
    by (auto simp: state_of_def result_of_def events_of_def remove_player_def emits_def)
next
  case (RollDice d)
  then show ?thesis
    using assms
    by (cases "game_state g") (simp_all add: state_of_def result_of_def events_of_def roll_dice_def)
next
  case (GetValidMoves c)
  then show ?thesis
    using assms
    by (cases "game_state g")
      (simp_all add: state_of_def result_of_def events_of_def get_valid_moves_def emits_def)
next
  case (MovePiece c i)
  then show ?thesis
    using assms
    by (cases "game_state g") (simp_all add: state_of_def result_of_def events_of_def move_piece_def)
next
  case ResetGame
  then show ?thesis
    using assms
    by (auto simp: state_of_def result_of_def events_of_def reset_game_def start_game_def
        emits_def Let_def split: if_split_asm)
qed (use assms in \<open>simp_all add: state_of_def result_of_def events_of_def emits_def\<close>)

lemma out_of_play_run:
  assumes "\<not> in_play (game_state g)"
    and "list_all (\<lambda>(r, evs). \<not> emits GAME_STARTED evs) (trace g later)"
  shows "\<not> in_play (game_state (run g later))
    \<and> list_all (\<lambda>(y, out). silent y out) (zip later (trace g later))"
  using assms
proof (induction later arbitrary: g)
  case Nil
  then show ?case by simp
next
  case (Cons y later)
  obtain r evs g1 where st: "step g y = (r, evs, g1)"
    by (cases "step g y")
  have quiet: "\<not> emits GAME_STARTED evs"
    and rest: "list_all (\<lambda>(r, evs). \<not> emits GAME_STARTED evs) (trace g1 later)"
    using Cons.prems(2) st by simp_all
  have "\<not> in_play (game_state g1)" and "silent y (r, evs)"
    using out_of_play_step [of g y] Cons.prems(1) quiet st
    by (simp_all add: state_of_def result_of_def events_of_def)
  then show ?case
    using Cons.IH [of g1] rest st by simp
qed

lemma blue_to_move_state:
  "run LudoGame_init blue_to_move =
     \<lparr>players =
        [(RED, (Player_init RED)\<lparr>pieces :=
            [(Piece_init RED 0)\<lparr>position := 52, is_home := True\<rparr>,
             (Piece_init RED 1)\<lparr>position := 30\<rparr>, Piece_init RED 2, Piece_init RED 3],
            home_count := 1\<rparr>),
         (GREEN, (Player_init GREEN)\<lparr>pieces :=
            [(Piece_init GREEN 0)\<lparr>position := 66, is_home := True\<rparr>,
             (Piece_init GREEN 1)\<lparr>position := 66, is_home := True\<rparr>,
             Piece_init GREEN 2, Piece_init GREEN 3],
            home_count := 2\<rparr>),
         (YELLOW, (Player_init YELLOW)\<lparr>pieces :=
            [(Piece_init YELLOW 0)\<lparr>position := 80, is_home := True\<rparr>,
             (Piece_init YELLOW 1)\<lparr>position := 80, is_home := True\<rparr>,
             (Piece_init YELLOW 2)\<lparr>position := 44\<rparr>, Piece_init YELLOW 3],
            home_count := 2\<rparr>),
         (BLUE, (Player_init BLUE)\<lparr>pieces :=
            [(Piece_init BLUE 0)\<lparr>position := 94, is_home := True\<rparr>,
             (Piece_init BLUE 1)\<lparr>position := 94, is_home := True\<rparr>,
             (Piece_init BLUE 2)\<lparr>position := 94, is_home := True\<rparr>,
             (Piece_init BLUE 3)\<lparr>position := 51\<rparr>],
            home_count := 3\<rparr>)],
      current_player = Some BLUE, game_state = MOVING_PIECE, dice_value = 6\<rparr>"
  by (simp add: eval_defs)

lemma blue_winning_move:
  "move_piece (run LudoGame_init blue_to_move) BLUE 3 =
     Inr (True,
      [GameEvent PIECE_HOME (HomeData 3 BLUE) (Some BLUE),
       GameEvent PIECE_MOVED (MovedData 3 51 94 6) (Some BLUE),
       GameEvent EV_GAME_OVER (OverData BLUE) (Some BLUE)],
      blue_won)"
  unfolding blue_to_move_state blue_won_def by (simp add: eval_defs)

lemma blue_wins_state: "run LudoGame_init blue_wins = blue_won"
  by (simp add: blue_wins_def run_append blue_winning_move)

text \<open>
  Claim C7, as amended. In a game reached through the public calls, a \<^verbatim>\<open>GAME_OVER\<close> event
  is emitted only by a successful \<^verbatim>\<open>move_piece\<close> that finishes the fourth piece of the
  mover (three were finished before), exactly once in that call, and the phase is then
  \<^verbatim>\<open>GAME_OVER\<close>. From then on, until a call emits \<^verbatim>\<open>GAME_STARTED\<close> again, the phase is
  neither \<^verbatim>\<open>ROLLING_DICE\<close> nor \<^verbatim>\<open>MOVING_PIECE\<close>, every \<^verbatim>\<open>move_piece\<close> returns false and
  every \<^verbatim>\<open>roll_dice\<close> returns 0, both without events, and no call emits \<^verbatim>\<open>GAME_OVER\<close>.
\<close>

theorem game_over_until_restart:
  assumes "list_all op_ok ops"
    and "emits EV_GAME_OVER (events_of (step (run LudoGame_init ops) x))"
  shows "(\<exists>c i player player'.
        x = MovePiece c i \<and> result_of (step (run LudoGame_init ops) x) = RBool True
        \<and> map_of (players (run LudoGame_init ops)) c = Some player
        \<and> map_of (players (state_of (step (run LudoGame_init ops) x))) c = Some player'
        \<and> \<not> is_home (pieces player ! nat i) \<and> is_home (pieces player' ! nat i)
        \<and> length (filter is_home (pieces player)) = 3
        \<and> length (filter is_home (pieces player')) = 4)
    \<and> length (filter (\<lambda>e. event_type e = EV_GAME_OVER)
         (events_of (step (run LudoGame_init ops) x))) = 1
    \<and> game_state (state_of (step (run LudoGame_init ops) x)) = GAME_OVER
    \<and> (\<forall>later.
          list_all (\<lambda>(r, evs). \<not> emits GAME_STARTED evs)
            (trace (state_of (step (run LudoGame_init ops) x)) later) \<longrightarrow>
          \<not> in_play (game_state (run (state_of (step (run LudoGame_init ops) x)) later))
          \<and> list_all (\<lambda>(y, out). silent y out)
               (zip later (trace (state_of (step (run LudoGame_init ops) x)) later)))"
proof -
  let ?g = "run LudoGame_init ops"
  have ok: "game_ok ?g"
    using assms(1) by (rule game_ok_reachable)
  obtain c i where x: "x = MovePiece c i"
    using game_over_only_by_move [OF assms(2)] by blast
  obtain b evs g' where mv: "move_piece ?g c i = Inr (b, evs, g')"
    using assms(2) x
    by (cases "move_piece ?g c i") (auto simp: events_of_def emits_def)
  then have st: "step ?g x = (RBool b, evs, g')"
    using x by simp
  then have over: "emits EV_GAME_OVER evs"
    using assms(2) by (simp add: events_of_def)
  note w = winning_move [OF ok mv over]
  have state: "game_state g' = GAME_OVER"
    using w by blast
  then have "\<not> in_play (game_state g')"
    by simp
  then have "\<forall>later. list_all (\<lambda>(r, evs). \<not> emits GAME_STARTED evs) (trace g' later) \<longrightarrow>
          \<not> in_play (game_state (run g' later))
          \<and> list_all (\<lambda>(y, out). silent y out) (zip later (trace g' later))"
    using out_of_play_run by blast
  moreover have "result_of (step ?g x) = RBool True" "events_of (step ?g x) = evs"
    "state_of (step ?g x) = g'"
    using st w by (simp_all add: result_of_def events_of_def state_of_def)
  ultimately show ?thesis
    using w x by (simp only:) blast
qed

theorem game_over_until_restart_witness:
  "list_all op_ok blue_to_move
   \<and> emits EV_GAME_OVER (events_of (step (run LudoGame_init blue_to_move) (MovePiece BLUE 3)))
   \<and> state_of (step (run LudoGame_init blue_to_move) (MovePiece BLUE 3)) = blue_won
   \<and> list_all (\<lambda>(r, evs). \<not> emits GAME_STARTED evs)
        (trace blue_won [RollDice 2, MovePiece RED 1, RemovePlayer RED, ResetGame, RollDice 4])
   \<and> \<not> in_play (game_state
          (run blue_won [RollDice 2, MovePiece RED 1, RemovePlayer RED, ResetGame, RollDice 4]))
   \<and> list_all (\<lambda>(y, out). silent y out)
        (zip [RollDice 2, MovePiece RED 1, RemovePlayer RED, ResetGame, RollDice 4]
           (trace blue_won [RollDice 2, MovePiece RED 1, RemovePlayer RED, ResetGame, RollDice 4]))"
proof -
  have ops: "list_all op_ok blue_to_move"
    by (simp add: blue_to_move_def four_players_def sixes_def)
  have over: "emits EV_GAME_OVER
      (events_of (step (run LudoGame_init blue_to_move) (MovePiece BLUE 3)))"
    by (simp add: blue_winning_move events_of_def emits_def)
  have won: "state_of (step (run LudoGame_init blue_to_move) (MovePiece BLUE 3)) = blue_won"
    by (simp add: blue_winning_move state_of_def)
  have later: "list_all (\<lambda>(r, evs). \<not> emits GAME_STARTED evs)
        (trace blue_won [RollDice 2, MovePiece RED 1, RemovePlayer RED, ResetGame, RollDice 4])"
    unfolding blue_won_def by (simp add: eval_defs emits_def)
  show ?thesis
    using ops over won later game_over_until_restart [OF ops over]
    unfolding won by blast
qed

text \<open>
  Claim C7 as stated fails: after the \<^verbatim>\<open>GAME_OVER\<close> event of the last call of
  \<open>blue_wins\<close>, a \<^verbatim>\<open>reset_game\<close> starts the four players anew, so that a roll returns 6
  and a move succeeds; and so does removing and adding a player again, after which a roll
  returns 3.
\<close>

theorem game_over_restart:
  "emits EV_GAME_OVER (events_of (step (run LudoGame_init blue_to_move) (MovePiece BLUE 3)))
   \<and> blue_wins = blue_to_move @ [MovePiece BLUE 3]
   \<and> map fst (trace (run LudoGame_init blue_wins) [ResetGame, RollDice 6, MovePiece RED 1])
       = [RNone, RInt 6, RBool True]
   \<and> map fst (trace (run LudoGame_init blue_wins) [RemovePlayer GREEN, AddPlayer GREEN, RollDice 3])
       = [RBool True, RBool True, RInt 3]"
proof -
  have "emits EV_GAME_OVER (events_of (step (run LudoGame_init blue_to_move) (MovePiece BLUE 3)))"
    by (simp add: blue_winning_move events_of_def emits_def)
  moreover have "map fst (trace (run LudoGame_init blue_wins) [ResetGame, RollDice 6, MovePiece RED 1])
       = [RNone, RInt 6, RBool True]"
    unfolding blue_wins_state blue_won_def by (simp add: eval_defs)
  moreover have "map fst (trace (run LudoGame_init blue_wins)
        [RemovePlayer GREEN, AddPlayer GREEN, RollDice 3]) = [RBool True, RBool True, RInt 3]"
    unfolding blue_wins_state blue_won_def by (simp add: eval_defs)
  ultimately show ?thesis
    by (simp only: blue_wins_def)
qed

subsection \<open>Exceptions\<close>







lemma removed_player_example:
  "step (run LudoGame_init (four_players @ [RollDice 6, RemovePlayer RED])) (MovePiece RED 0)
     = (RRaise KeyError, [], run LudoGame_init (four_players @ [RollDice 6, RemovePlayer RED]))"
  by (simp add: eval_defs)



subsection \<open>Rejected moves\<close>




subsection \<open>The legal moves of a colour\<close>




end
